theory Spec2Isabelle
  imports Complex_Main "HOL-Library.Word"
begin

unbundle bit_operations_syntax

section \<open>Python exceptions\<close>

text \<open>
  Every \<^verbatim>\<open>raise\<close> of the source, and every exception a builtin it calls can raise, is a
  value of \<open>error\<close>; a fallible function returns \<open>error + 'a\<close> with \<open>Inl\<close> the exception.
  The source signals every format problem of a font file with \<^verbatim>\<open>ValueError\<close> (the
  specification's \<^verbatim>\<open>FormatError\<close>). \<open>StructError\<close> is what \<^verbatim>\<open>struct.unpack\<close> raises on a
  buffer of the wrong length, that is, on a short read.
\<close>

datatype error = ValueError | KeyError | TypeError | StructError | AttributeError | EOFError | OSError

section \<open>cache.py: the ordered dictionary and \<^verbatim>\<open>LruCache\<close>\<close>

text \<open>
  An \<^verbatim>\<open>OrderedDict\<close> is its list of items in iteration order, the keys distinct: the head
  of the list is the front of the dictionary, the last element its end.
  \<^item> \<^verbatim>\<open>d[key] = value\<close> overwrites the value of a present key where it stands and appends
    a new key at the end;
  \<^item> \<^verbatim>\<open>d.popitem()\<close> removes the item at the end (\<^verbatim>\<open>KeyError\<close> on an empty dictionary);
  \<^item> \<^verbatim>\<open>d.move_to_end(key, last=False)\<close> moves a present key to the front
    (\<^verbatim>\<open>KeyError\<close> on an absent one).
\<close>

definition od_keys :: "('k \<times> 'v) list \<Rightarrow> 'k list" where
  "od_keys d = map fst d"

fun od_setitem :: "('k \<times> 'v) list \<Rightarrow> 'k \<Rightarrow> 'v \<Rightarrow> ('k \<times> 'v) list" where
  "od_setitem [] key val = [(key, val)]"
| "od_setitem (p # ps) key val =
     (if fst p = key then (key, val) # ps else p # od_setitem ps key val)"

definition od_popitem :: "('k \<times> 'v) list \<Rightarrow> error + (('k \<times> 'v) \<times> ('k \<times> 'v) list)" where
  "od_popitem d = (if d = [] then Inl KeyError else Inr (last d, butlast d))"

definition od_move_to_front :: "('k \<times> 'v) list \<Rightarrow> 'k \<Rightarrow> error + ('k \<times> 'v) list" where
  "od_move_to_front d key =
     (case map_of d key of
        None \<Rightarrow> Inl KeyError
      | Some val \<Rightarrow> Inr ((key, val) # filter (\<lambda>p. fst p \<noteq> key) d))"

text \<open>
  \<^verbatim>\<open>LruCache\<close> (cache.py, lines 8 to 30) holds the dictionary and the capacity it was built
  with; the capacity is a Python integer and may be zero or negative. \<^verbatim>\<open>put\<close> accepts any
  value, \<^verbatim>\<open>None\<close> included: a stored value is \<open>None\<close> for Python's \<^verbatim>\<open>None\<close> and \<open>Some v\<close>
  for any other object \<open>v\<close>. \<^verbatim>\<open>self._cache.get(key, None)\<close> is \<^verbatim>\<open>None\<close> for an absent key
  and for a key stored with \<^verbatim>\<open>None\<close>, and \<^verbatim>\<open>get\<close> moves the key to the front only when
  that result is not \<^verbatim>\<open>None\<close> (lines 14 to 18). Each method takes the cache and returns
  it: \<^verbatim>\<open>get\<close> and \<^verbatim>\<open>put\<close> updated, \<^verbatim>\<open>contains\<close> as it was.
\<close>

record ('k, 'v) LruCache =
  lru_cache :: "('k \<times> 'v option) list"
  lru_capacity :: int

definition LruCache_init :: "int \<Rightarrow> ('k, 'v) LruCache" where
  "LruCache_init capacity = \<lparr>lru_cache = [], lru_capacity = capacity\<rparr>"

definition get :: "('k, 'v) LruCache \<Rightarrow> 'k \<Rightarrow> error + ('v option \<times> ('k, 'v) LruCache)" where
  "get c key =
     (let data = (case map_of (lru_cache c) key of None \<Rightarrow> None | Some val \<Rightarrow> val)
      in if data \<noteq> None
         then (case od_move_to_front (lru_cache c) key of
                 Inl e \<Rightarrow> Inl e
               | Inr d \<Rightarrow> Inr (data, c\<lparr>lru_cache := d\<rparr>))
         else Inr (data, c))"

definition put :: "('k, 'v) LruCache \<Rightarrow> 'k \<Rightarrow> 'v option \<Rightarrow> error + ('k, 'v) LruCache" where
  "put c key val =
     (case (if int (length (lru_cache c)) \<ge> lru_capacity c
            then (case od_popitem (lru_cache c) of Inl e \<Rightarrow> Inl e | Inr (_, d) \<Rightarrow> Inr d)
            else Inr (lru_cache c)) of
        Inl e \<Rightarrow> Inl e
      | Inr d \<Rightarrow>
          (case od_move_to_front (od_setitem d key val) key of
             Inl e \<Rightarrow> Inl e
           | Inr d' \<Rightarrow> Inr (c\<lparr>lru_cache := d'\<rparr>)))"

definition contains :: "('k, 'v) LruCache \<Rightarrow> 'k \<Rightarrow> bool \<times> ('k, 'v) LruCache" where
  "contains c key = (key \<in> set (od_keys (lru_cache c)), c)"

text \<open>A sequence of \<^verbatim>\<open>put\<close> calls, and a sequence of \<^verbatim>\<open>put\<close> and \<^verbatim>\<open>get\<close> calls, each
  stopping at the first exception.\<close>

fun put_all :: "('k, 'v) LruCache \<Rightarrow> ('k \<times> 'v option) list \<Rightarrow> error + ('k, 'v) LruCache" where
  "put_all c [] = Inr c"
| "put_all c ((key, val) # kvs) =
     (case put c key val of Inl e \<Rightarrow> Inl e | Inr c' \<Rightarrow> put_all c' kvs)"

datatype ('k, 'v) cache_op = Put 'k "'v option" | Get 'k

fun run_ops :: "('k, 'v) LruCache \<Rightarrow> ('k, 'v) cache_op list \<Rightarrow> error + ('k, 'v) LruCache" where
  "run_ops c [] = Inr c"
| "run_ops c (Put key val # ops) =
     (case put c key val of Inl e \<Rightarrow> Inl e | Inr c' \<Rightarrow> run_ops c' ops)"
| "run_ops c (Get key # ops) =
     (case get c key of Inl e \<Rightarrow> Inl e | Inr (_, c') \<Rightarrow> run_ops c' ops)"

fun put_keys :: "('k, 'v) cache_op list \<Rightarrow> 'k list" where
  "put_keys [] = []"
| "put_keys (Put key val # ops) = key # put_keys ops"
| "put_keys (Get key # ops) = put_keys ops"

fun put_values :: "('k, 'v) cache_op list \<Rightarrow> 'v option list" where
  "put_values [] = []"
| "put_values (Put key val # ops) = val # put_values ops"
| "put_values (Get key # ops) = put_values ops"

text \<open>
  The reference the cache is compared with follows the specification's words, not the
  source: the keys in the order of their last touch, most recent first, without any bound
  on their number. A \<^verbatim>\<open>put\<close> touches its key; a \<^verbatim>\<open>get\<close> touches its key when the key is
  present, that is, among the \<open>C\<close> most recently touched.
\<close>

fun touch_order_spec :: "nat \<Rightarrow> 'k list \<Rightarrow> ('k, 'v) cache_op list \<Rightarrow> 'k list" where
  "touch_order_spec C h [] = h"
| "touch_order_spec C h (Put key val # ops) = touch_order_spec C (key # removeAll key h) ops"
| "touch_order_spec C h (Get key # ops) =
     touch_order_spec C (if key \<in> set (take C h) then key # removeAll key h else h) ops"

section \<open>The byte stream\<close>

text \<open>
  The font reads its file through \<^verbatim>\<open>seek\<close> and \<^verbatim>\<open>read\<close> only. The stream is the content
  of the file, the position, and the record of every access made so far, oldest first:
  no access to the stream leaves the record as it was. \<^verbatim>\<open>read(n)\<close> returns the bytes
  that are left when fewer than \<open>n\<close> are; seeking past the end is allowed, seeking to a
  negative offset raises.
\<close>

type_synonym byte = "8 word"

datatype io_op = Seek int | Read nat

record FileIO =
  f_content :: "byte list"
  f_pos :: nat
  f_log :: "io_op list"

definition open_rb :: "byte list \<Rightarrow> FileIO" where
  "open_rb bs = \<lparr>f_content = bs, f_pos = 0, f_log = []\<rparr>"

definition seek :: "FileIO \<Rightarrow> int \<Rightarrow> error + FileIO" where
  "seek f offset =
     (if offset < 0 then Inl OSError
      else Inr (f\<lparr>f_pos := nat offset, f_log := f_log f @ [Seek offset]\<rparr>))"

definition read :: "FileIO \<Rightarrow> nat \<Rightarrow> byte list \<times> FileIO" where
  "read f n =
     (let bs = take n (drop (f_pos f) (f_content f))
      in (bs, f\<lparr>f_pos := f_pos f + length bs, f_log := f_log f @ [Read n]\<rparr>))"

section \<open>\<^verbatim>\<open>struct.unpack\<close> and \<^verbatim>\<open>read_values\<close>\<close>

text \<open>
  A format string of the source is a byte order (\<^verbatim>\<open>>\<close> or \<^verbatim>\<open><\<close>: standard sizes, no
  padding) and a list of field codes; \<^verbatim>\<open>">5hH"\<close> is \<open>BigEndian\<close> with five \<open>Fmt_h\<close> and
  one \<open>Fmt_H\<close>. \<^verbatim>\<open>read_values\<close> (pcf.py, lines 54 to 56) reads \<^verbatim>\<open>calcsize\<close> bytes and
  unpacks them; \<^verbatim>\<open>struct.unpack\<close> raises when the buffer has another length.
\<close>

datatype byteorder = BigEndian | LittleEndian

datatype fmtchar = Fmt_B | Fmt_h | Fmt_H | Fmt_i | Fmt_I

fun fmt_size :: "fmtchar \<Rightarrow> nat" where
  "fmt_size Fmt_B = 1"
| "fmt_size Fmt_h = 2"
| "fmt_size Fmt_H = 2"
| "fmt_size Fmt_i = 4"
| "fmt_size Fmt_I = 4"

fun fmt_signed :: "fmtchar \<Rightarrow> bool" where
  "fmt_signed Fmt_B = False"
| "fmt_signed Fmt_h = True"
| "fmt_signed Fmt_H = False"
| "fmt_signed Fmt_i = True"
| "fmt_signed Fmt_I = False"

definition calcsize :: "fmtchar list \<Rightarrow> nat" where
  "calcsize fmt = sum_list (map fmt_size fmt)"

fun be_uint :: "int \<Rightarrow> byte list \<Rightarrow> int" where
  "be_uint acc [] = acc"
| "be_uint acc (b # bs) = be_uint (acc * 256 + uint b) bs"

definition field_value :: "byteorder \<Rightarrow> fmtchar \<Rightarrow> byte list \<Rightarrow> int" where
  "field_value order ch bs =
     (let u = be_uint 0 (case order of BigEndian \<Rightarrow> bs | LittleEndian \<Rightarrow> rev bs)
      in if fmt_signed ch \<and> u \<ge> 2 ^ (8 * fmt_size ch - 1) then u - 2 ^ (8 * fmt_size ch) else u)"

fun unpack :: "byteorder \<Rightarrow> fmtchar list \<Rightarrow> byte list \<Rightarrow> int list" where
  "unpack order [] bs = []"
| "unpack order (ch # fmt) bs =
     field_value order ch (take (fmt_size ch) bs) # unpack order fmt (drop (fmt_size ch) bs)"

definition read_values :: "FileIO \<Rightarrow> byteorder \<Rightarrow> fmtchar list \<Rightarrow> error + (int list \<times> FileIO)" where
  "read_values f order fmt =
     (let size = calcsize fmt; (bs, f') = read f size
      in if length bs \<noteq> size then Inl StructError else Inr (unpack order fmt bs, f'))"

section \<open>pcf.py: constants, records and the metrics decoders\<close>

definition PCF_TABLETYPE_ACCELERATORS :: int where "PCF_TABLETYPE_ACCELERATORS = push_bit 1 1"
definition PCF_TABLETYPE_METRICS :: int where "PCF_TABLETYPE_METRICS = push_bit 2 1"
definition PCF_TABLETYPE_BITMAPS :: int where "PCF_TABLETYPE_BITMAPS = push_bit 3 1"
definition PCF_TABLETYPE_BDFENCODINGS :: int where "PCF_TABLETYPE_BDFENCODINGS = push_bit 5 1"
definition PCF_TABLETYPE_BDFACCELERATORS :: int where "PCF_TABLETYPE_BDFACCELERATORS = push_bit 8 1"
definition PCF_BYTE_MASK :: int where "PCF_BYTE_MASK = push_bit 2 1"
definition PCF_BIT_MASK :: int where "PCF_BIT_MASK = push_bit 3 1"
definition PCF_SCAN_UNIT_MASK :: int where "PCF_SCAN_UNIT_MASK = push_bit 4 3"
definition PCF_GLYPH_PAD_MASK :: int where "PCF_GLYPH_PAD_MASK = push_bit 0 3"
definition PCF_COMPRESSED_METRICS :: int where "PCF_COMPRESSED_METRICS = 0x00000100"
definition PCF_ACCEL_W_INKBOUNDS :: int where "PCF_ACCEL_W_INKBOUNDS = 0x00000100"

record TableTocEntry =
  toc_format :: int
  toc_size :: int
  toc_offset :: int

record MetricsEntry =
  left_side_bearing :: int
  right_side_bearing :: int
  character_width :: int
  character_ascent :: int
  character_descent :: int
  character_attributes :: int

text \<open>\<^verbatim>\<open>bytes_per_row\<close> (lines 59 to 63); Python's \<^verbatim>\<open>//\<close> and HOL's \<open>div\<close> on \<open>int\<close> both
  round towards minus infinity.\<close>

definition bytes_per_row :: "int \<Rightarrow> int \<Rightarrow> int" where
  "bytes_per_row width bytes_align =
     (let unit_align_bits = bytes_align * 8;
          block_count = (width + unit_align_bits - 1) div unit_align_bits
      in block_count * bytes_align)"

text \<open>
  The two decoders (lines 66 to 91). A tuple of the wrong length cannot be built into the
  named tuple (\<^verbatim>\<open>TypeError\<close>) or unpacked into five names (\<^verbatim>\<open>ValueError\<close>); the formats
  used always give six and five values.
\<close>

definition read_metrics_entry_standard :: "FileIO \<Rightarrow> error + (MetricsEntry \<times> FileIO)" where
  "read_metrics_entry_standard f =
     (case read_values f BigEndian [Fmt_h, Fmt_h, Fmt_h, Fmt_h, Fmt_h, Fmt_H] of
        Inl e \<Rightarrow> Inl e
      | Inr (vals, f') \<Rightarrow>
          (case vals of
             [lsb, rsb, cw, asc, desc, attrs] \<Rightarrow>
               Inr (\<lparr>left_side_bearing = lsb, right_side_bearing = rsb, character_width = cw,
                     character_ascent = asc, character_descent = desc,
                     character_attributes = attrs\<rparr>, f')
           | _ \<Rightarrow> Inl TypeError))"

definition read_metrics_entry_compressed :: "FileIO \<Rightarrow> error + (MetricsEntry \<times> FileIO)" where
  "read_metrics_entry_compressed f =
     (case read_values f BigEndian [Fmt_B, Fmt_B, Fmt_B, Fmt_B, Fmt_B] of
        Inl e \<Rightarrow> Inl e
      | Inr (vals, f') \<Rightarrow>
          (case vals of
             [lsb, rsb, cw, asc, desc] \<Rightarrow>
               Inr (\<lparr>left_side_bearing = lsb - 0x80, right_side_bearing = rsb - 0x80,
                     character_width = cw - 0x80, character_ascent = asc - 0x80,
                     character_descent = desc - 0x80, character_attributes = 0\<rparr>, f')
           | _ \<Rightarrow> Inl ValueError))"

section \<open>pcf.py: the font object and its construction\<close>

text \<open>
  \<^verbatim>\<open>fontio.Glyph\<close> is a named tuple; its bitmap is a mutable object that
  \<^verbatim>\<open>load_glyphs\<close> fills after the glyph is already in the cache, so a glyph holds the
  address of its bitmap in a store (\<open>heap\<close>, a list indexed by address). The bitmap
  constructor \<^verbatim>\<open>displayio.Bitmap\<close> and the reader \<^verbatim>\<open>bitmaptools.readinto\<close> belong to the
  host runtime: they are parameters of the model (\<open>Host\<close>), the bitmap type \<open>'b\<close> with them.
\<close>

record Glyph =
  bitmap :: nat
  tile_index :: int
  width :: int
  height :: int
  dx :: int
  dy :: int
  shift_x :: int
  shift_y :: int

record 'b Host =
  new_bitmap :: "int \<Rightarrow> int \<Rightarrow> int \<Rightarrow> error + 'b"
  readinto :: "'b \<Rightarrow> FileIO \<Rightarrow> int \<Rightarrow> error + ('b \<times> FileIO)"

text \<open>The attributes \<^verbatim>\<open>__init__\<close> sets, and the store of bitmap objects.\<close>

record 'b PcfFont =
  font_file :: FileIO
  glyph_padding :: int
  metrics_compressed :: bool
  min_byte2 :: int
  max_byte2 :: int
  min_byte1 :: int
  max_byte1 :: int
  default_char :: int
  ascent :: int
  descent :: int
  bounding_box :: "int \<times> int \<times> int \<times> int"
  bitmap_position_lut_location :: int
  bitmap_data_location :: int
  metrics_data_location :: int
  encoded_glyph_indices_location :: int
  cache :: "(int, Glyph) LruCache"
  heap :: "'b list"

text \<open>
  \<^verbatim>\<open>__init__\<close> (lines 95 to 202) in the order of the source: the magic and the table of
  contents (\<open>read_header\<close>, lines 96 to 115), the checks on the tables kept
  (\<open>check_tables\<close>, lines 116 to 129), the glyph and metrics counts (\<open>read_counts\<close>, lines
  134 to 151), the encoding range (\<open>read_encoding_range\<close>, lines 155 to 162), the
  accelerators (\<open>read_accelerators\<close>, lines 165 to 180) and the attributes (lines 182 to
  202). \<^verbatim>\<open>tables\<close> is a dictionary: \<^verbatim>\<open>tables[key]\<close> raises \<^verbatim>\<open>KeyError\<close> on an absent key.
\<close>

definition dict_getitem :: "('k \<times> 'v) list \<Rightarrow> 'k \<Rightarrow> error + 'v" where
  "dict_getitem d key = (case map_of d key of None \<Rightarrow> Inl KeyError | Some val \<Rightarrow> Inr val)"

definition necessary_tables_types :: "int list" where
  "necessary_tables_types =
     [PCF_TABLETYPE_ACCELERATORS, PCF_TABLETYPE_METRICS, PCF_TABLETYPE_BITMAPS,
      PCF_TABLETYPE_BDFENCODINGS, PCF_TABLETYPE_BDFACCELERATORS]"

fun read_toc :: "FileIO \<Rightarrow> nat \<Rightarrow> (int \<times> TableTocEntry) list
                   \<Rightarrow> error + ((int \<times> TableTocEntry) list \<times> FileIO)" where
  "read_toc f 0 tables = Inr (tables, f)"
| "read_toc f (Suc n) tables =
     (case read_values f LittleEndian [Fmt_I, Fmt_I, Fmt_I, Fmt_I] of
        Inl e \<Rightarrow> Inl e
      | Inr (vals, f') \<Rightarrow>
          (case vals of
             [ttype, tformat, tsize, toffset] \<Rightarrow>
               read_toc f' n
                 (if ttype \<in> set necessary_tables_types
                  then od_setitem tables ttype
                         \<lparr>toc_format = tformat, toc_size = tsize, toc_offset = toffset\<rparr>
                  else tables)
           | _ \<Rightarrow> Inl ValueError))"

definition read_header :: "FileIO \<Rightarrow> error + ((int \<times> TableTocEntry) list \<times> FileIO)" where
  "read_header f0 =
     (case seek f0 0 of
        Inl e \<Rightarrow> Inl e
      | Inr f1 \<Rightarrow>
          (case read f1 4 of
             (magic, f2) \<Rightarrow>
               if [0x01, 0x66, 0x63, 0x70] \<noteq> magic then Inl ValueError
               else (case read_values f2 LittleEndian [Fmt_I] of
                       Inl e \<Rightarrow> Inl e
                     | Inr (vals, f3) \<Rightarrow>
                         (case vals of
                            [tables_count] \<Rightarrow> read_toc f3 (nat tables_count) []
                          | _ \<Rightarrow> Inl ValueError))))"

definition check_tables :: "(int \<times> TableTocEntry) list \<Rightarrow> error + int" where
  "check_tables tables =
     (if length tables < 4 then Inl ValueError
      else if list_ex (\<lambda>(_, entry). toc_format entry AND (PCF_BYTE_MASK OR PCF_BIT_MASK)
                                        \<noteq> (PCF_BYTE_MASK OR PCF_BIT_MASK)) tables
      then Inl ValueError
      else (case dict_getitem tables PCF_TABLETYPE_BITMAPS of
              Inl e \<Rightarrow> Inl e
            | Inr bitmaps \<Rightarrow>
                if toc_format bitmaps AND PCF_SCAN_UNIT_MASK \<noteq> 0 then Inl ValueError
                else Inr (2 ^ nat (toc_format bitmaps AND PCF_GLYPH_PAD_MASK))))"

definition read_counts :: "FileIO \<Rightarrow> (int \<times> TableTocEntry) list \<Rightarrow> error + (int \<times> bool \<times> FileIO)" where
  "read_counts f0 tables =
     (case dict_getitem tables PCF_TABLETYPE_BITMAPS of
        Inl e \<Rightarrow> Inl e
      | Inr bitmaps \<Rightarrow>
     (case seek f0 (toc_offset bitmaps + 4) of
        Inl e \<Rightarrow> Inl e
      | Inr f1 \<Rightarrow>
     (case read_values f1 BigEndian [Fmt_I] of
        Inl e \<Rightarrow> Inl e
      | Inr (vals, f2) \<Rightarrow>
     (case vals of
        [glyph_count] \<Rightarrow>
     (case dict_getitem tables PCF_TABLETYPE_METRICS of
        Inl e \<Rightarrow> Inl e
      | Inr metrics \<Rightarrow>
     (case seek f2 (toc_offset metrics + 4) of
        Inl e \<Rightarrow> Inl e
      | Inr f3 \<Rightarrow>
          (let compressed = (toc_format metrics AND PCF_COMPRESSED_METRICS > 0)
           in (case read_values f3 BigEndian [if compressed then Fmt_H else Fmt_I] of
                 Inl e \<Rightarrow> Inl e
               | Inr (vals', f4) \<Rightarrow>
                   (case vals' of
                      [metrics_count] \<Rightarrow>
                        if metrics_count \<noteq> glyph_count then Inl ValueError
                        else Inr (glyph_count, compressed, f4)
                    | _ \<Rightarrow> Inl ValueError)))))
      | _ \<Rightarrow> Inl ValueError))))"

definition read_encoding_range :: "FileIO \<Rightarrow> (int \<times> TableTocEntry) list \<Rightarrow> error + (int list \<times> FileIO)" where
  "read_encoding_range f0 tables =
     (case dict_getitem tables PCF_TABLETYPE_BDFENCODINGS of
        Inl e \<Rightarrow> Inl e
      | Inr encodings \<Rightarrow>
          (case seek f0 (toc_offset encodings + 4) of
             Inl e \<Rightarrow> Inl e
           | Inr f1 \<Rightarrow> read_values f1 BigEndian [Fmt_h, Fmt_h, Fmt_h, Fmt_h, Fmt_h]))"

definition read_accelerators ::
  "FileIO \<Rightarrow> (int \<times> TableTocEntry) list
     \<Rightarrow> error + (int \<times> int \<times> MetricsEntry \<times> MetricsEntry \<times> FileIO)" where
  "read_accelerators f0 tables =
     (case (if PCF_TABLETYPE_ACCELERATORS \<in> set (od_keys tables)
            then map_of tables PCF_TABLETYPE_ACCELERATORS
            else map_of tables PCF_TABLETYPE_BDFACCELERATORS) of
        None \<Rightarrow> Inl AttributeError
      | Some acc_table \<Rightarrow>
     (case seek f0 (toc_offset acc_table + 4 + 8) of
        Inl e \<Rightarrow> Inl e
      | Inr f1 \<Rightarrow>
     (case read_values f1 BigEndian [Fmt_i, Fmt_i] of
        Inl e \<Rightarrow> Inl e
      | Inr (vals, f2) \<Rightarrow>
     (case vals of
        [asc, desc] \<Rightarrow>
     (case seek f2 (if toc_format acc_table AND PCF_ACCEL_W_INKBOUNDS > 0
                    then toc_offset acc_table + 4 + 8 + 4 + 4 + 4 + 24
                    else toc_offset acc_table + 4 + 8 + 4 + 4 + 4) of
        Inl e \<Rightarrow> Inl e
      | Inr f3 \<Rightarrow>
     (case read_metrics_entry_standard f3 of
        Inl e \<Rightarrow> Inl e
      | Inr (minbounds, f4) \<Rightarrow>
     (case read_metrics_entry_standard f4 of
        Inl e \<Rightarrow> Inl e
      | Inr (maxbounds, f5) \<Rightarrow> Inr (asc, desc, minbounds, maxbounds, f5))))
      | _ \<Rightarrow> Inl ValueError))))"

definition PcfFont_init :: "byte list \<Rightarrow> int \<Rightarrow> error + 'b PcfFont" where
  "PcfFont_init bs capacity =
     (case read_header (open_rb bs) of
        Inl e \<Rightarrow> Inl e
      | Inr (tables, f1) \<Rightarrow>
     (case check_tables tables of
        Inl e \<Rightarrow> Inl e
      | Inr padding \<Rightarrow>
     (case read_counts f1 tables of
        Inl e \<Rightarrow> Inl e
      | Inr (glyph_count, compressed, f2) \<Rightarrow>
     (case read_encoding_range f2 tables of
        Inl e \<Rightarrow> Inl e
      | Inr (vals, f3) \<Rightarrow>
     (case vals of
        [b2min, b2max, b1min, b1max, dflt] \<Rightarrow>
     (case read_accelerators f3 tables of
        Inl e \<Rightarrow> Inl e
      | Inr (asc, desc, minbounds, maxbounds, f4) \<Rightarrow>
     (case (dict_getitem tables PCF_TABLETYPE_BITMAPS, dict_getitem tables PCF_TABLETYPE_METRICS,
            dict_getitem tables PCF_TABLETYPE_BDFENCODINGS) of
        (Inr bitmaps, Inr metrics, Inr encodings) \<Rightarrow>
          Inr \<lparr>font_file = f4,
               glyph_padding = padding,
               metrics_compressed = compressed,
               min_byte2 = b2min, max_byte2 = b2max, min_byte1 = b1min, max_byte1 = b1max,
               default_char = dflt,
               ascent = asc, descent = desc,
               bounding_box =
                 (right_side_bearing maxbounds - left_side_bearing minbounds,
                  character_ascent maxbounds + character_descent maxbounds,
                  left_side_bearing minbounds,
                  - character_descent maxbounds),
               bitmap_position_lut_location = toc_offset bitmaps + 4 + 4,
               bitmap_data_location = toc_offset bitmaps + 4 + 4 + (glyph_count + 4) * 4,
               metrics_data_location = toc_offset metrics + 4 + (if compressed then 2 else 4),
               encoded_glyph_indices_location = toc_offset encodings + 4 + 5 * 2,
               cache = LruCache_init capacity,
               heap = []\<rparr>
      | _ \<Rightarrow> Inl KeyError))
      | _ \<Rightarrow> Inl ValueError)))))"

section \<open>pcf.py: lookups, \<^verbatim>\<open>load_glyphs\<close> and \<^verbatim>\<open>get_glyph\<close>\<close>

text \<open>
  \<^verbatim>\<open>_get_glyph_index\<close> (lines 263 to 280) returns \<open>- 1\<close> for a code point without a glyph.
  Python's \<^verbatim>\<open>>>\<close> and \<^verbatim>\<open>&\<close> on integers are \<open>drop_bit\<close> and \<open>AND\<close> on \<open>int\<close> (two's
  complement without a width).
\<close>

definition get_glyph_index :: "'b PcfFont \<Rightarrow> int \<Rightarrow> error + (int \<times> 'b PcfFont)" where
  "get_glyph_index font code_point =
     (let enc1 = (drop_bit 8 code_point) AND 0xFF;
          enc2 = code_point AND 0xFF
      in if \<not> (min_byte1 font \<le> enc1 \<and> enc1 \<le> max_byte1 font)
            \<or> \<not> (min_byte2 font \<le> enc2 \<and> enc2 \<le> max_byte2 font)
         then Inr (- 1, font)
         else (let index_offset = (enc1 - min_byte1 font) * (max_byte2 font - min_byte2 font + 1)
                                    + (enc2 - min_byte2 font)
               in (case seek (font_file font) (encoded_glyph_indices_location font + index_offset * 2) of
                     Inl e \<Rightarrow> Inl e
                   | Inr f1 \<Rightarrow>
                       (case read_values f1 BigEndian [Fmt_H] of
                          Inl e \<Rightarrow> Inl e
                        | Inr (vals, f2) \<Rightarrow>
                            (case vals of
                               [glyph_index] \<Rightarrow>
                                 Inr (if glyph_index = 0xFFFF then - 1 else glyph_index,
                                      font\<lparr>font_file := f2\<rparr>)
                             | _ \<Rightarrow> Inl ValueError)))))"

definition get_glyph_bitmap_offset :: "'b PcfFont \<Rightarrow> int \<Rightarrow> error + (int \<times> 'b PcfFont)" where
  "get_glyph_bitmap_offset font glyph_index =
     (case seek (font_file font) (bitmap_position_lut_location font + glyph_index * 4) of
        Inl e \<Rightarrow> Inl e
      | Inr f1 \<Rightarrow>
          (case read_values f1 BigEndian [Fmt_I] of
             Inl e \<Rightarrow> Inl e
           | Inr (vals, f2) \<Rightarrow>
               (case vals of
                  [toffset] \<Rightarrow> Inr (toffset, font\<lparr>font_file := f2\<rparr>)
                | _ \<Rightarrow> Inl ValueError)))"

definition get_metrics :: "'b PcfFont \<Rightarrow> int \<Rightarrow> error + (MetricsEntry \<times> 'b PcfFont)" where
  "get_metrics font glyph_index =
     (if metrics_compressed font
      then (case seek (font_file font) (metrics_data_location font + glyph_index * 5) of
              Inl e \<Rightarrow> Inl e
            | Inr f1 \<Rightarrow>
                (case read_metrics_entry_compressed f1 of
                   Inl e \<Rightarrow> Inl e
                 | Inr (m, f2) \<Rightarrow> Inr (m, font\<lparr>font_file := f2\<rparr>)))
      else (case seek (font_file font) (metrics_data_location font + glyph_index * 12) of
              Inl e \<Rightarrow> Inl e
            | Inr f1 \<Rightarrow>
                (case read_metrics_entry_standard f1 of
                   Inl e \<Rightarrow> Inl e
                 | Inr (m, f2) \<Rightarrow> Inr (m, font\<lparr>font_file := f2\<rparr>))))"

text \<open>
  \<^verbatim>\<open>load_glyphs\<close> (lines 204 to 261), for a list of code points; an integer argument is the
  list of that one code point. Its comprehensions and loops, in the order of the source:
  the dictionary of glyph indices (lines 218 to 220), the bitmap offsets (lines 224 to
  226), the metrics (line 227), the creation of the bitmaps with the insertion of the
  glyphs into the cache (lines 232 to 251), and the decoding of the bitmaps (lines 253 to
  261). The dictionary of glyph indices is read in insertion order.
\<close>

fun glyphs_indices_loop :: "'b PcfFont \<Rightarrow> int list \<Rightarrow> (int \<times> int) list
                              \<Rightarrow> error + ((int \<times> int) list \<times> 'b PcfFont)" where
  "glyphs_indices_loop font [] acc = Inr (acc, font)"
| "glyphs_indices_loop font (c # cs) acc =
     (case get_glyph_index font c of
        Inl e \<Rightarrow> Inl e
      | Inr (index, font') \<Rightarrow>
          glyphs_indices_loop font' cs (if index \<ge> 0 then od_setitem acc c index else acc))"

fun bitmaps_offsets_loop :: "'b PcfFont \<Rightarrow> int list \<Rightarrow> error + (int list \<times> 'b PcfFont)" where
  "bitmaps_offsets_loop font [] = Inr ([], font)"
| "bitmaps_offsets_loop font (i # is) =
     (case get_glyph_bitmap_offset font i of
        Inl e \<Rightarrow> Inl e
      | Inr (off, font') \<Rightarrow>
          (case bitmaps_offsets_loop font' is of
             Inl e \<Rightarrow> Inl e
           | Inr (offs, font'') \<Rightarrow> Inr (off # offs, font'')))"

fun char_metrics_loop :: "'b PcfFont \<Rightarrow> int list \<Rightarrow> error + (MetricsEntry list \<times> 'b PcfFont)" where
  "char_metrics_loop font [] = Inr ([], font)"
| "char_metrics_loop font (i # is) =
     (case get_metrics font i of
        Inl e \<Rightarrow> Inl e
      | Inr (m, font') \<Rightarrow>
          (case char_metrics_loop font' is of
             Inl e \<Rightarrow> Inl e
           | Inr (ms, font'') \<Rightarrow> Inr (m # ms, font'')))"

fun create_bitmaps_loop :: "'b Host \<Rightarrow> 'b PcfFont \<Rightarrow> (MetricsEntry \<times> int) list
                              \<Rightarrow> error + (nat list \<times> 'b PcfFont)" where
  "create_bitmaps_loop host font [] = Inr ([], font)"
| "create_bitmaps_loop host font ((metrics, code_point) # rest) =
     (let w = right_side_bearing metrics - left_side_bearing metrics;
          h = character_ascent metrics + character_descent metrics
      in (case new_bitmap host w h 2 of
            Inl e \<Rightarrow> Inl e
          | Inr b \<Rightarrow>
              (let ref = length (heap font)
               in (case put (cache font) code_point
                          (Some \<lparr>bitmap = ref, tile_index = 0, width = w, height = h,
                                 dx = left_side_bearing metrics, dy = - character_descent metrics,
                                 shift_x = character_width metrics, shift_y = 0\<rparr>) of
                     Inl e \<Rightarrow> Inl e
                   | Inr c' \<Rightarrow>
                       (case create_bitmaps_loop host (font\<lparr>cache := c', heap := heap font @ [b]\<rparr>) rest of
                          Inl e \<Rightarrow> Inl e
                        | Inr (refs, font') \<Rightarrow> Inr (ref # refs, font'))))))"

fun readinto_loop :: "'b Host \<Rightarrow> 'b PcfFont \<Rightarrow> (int \<times> nat) list \<Rightarrow> error + 'b PcfFont" where
  "readinto_loop host font [] = Inr font"
| "readinto_loop host font ((bmp_offset, ref) # rest) =
     (case seek (font_file font) (bitmap_data_location font + bmp_offset) of
        Inl e \<Rightarrow> Inl e
      | Inr f1 \<Rightarrow>
          (case readinto host (heap font ! ref) f1 (glyph_padding font) of
             Inl e \<Rightarrow> Inl e
           | Inr (b', f2) \<Rightarrow>
               readinto_loop host (font\<lparr>font_file := f2, heap := (heap font)[ref := b']\<rparr>) rest))"

definition load_glyphs :: "'b Host \<Rightarrow> 'b PcfFont \<Rightarrow> int list \<Rightarrow> error + 'b PcfFont" where
  "load_glyphs host font code_points =
     (let cps = sort (filter (\<lambda>c. \<not> fst (contains (cache font) c)) code_points)
      in if cps = [] then Inr font
         else (case glyphs_indices_loop font cps [] of
                 Inl e \<Rightarrow> Inl e
               | Inr (glyphs_indices, font1) \<Rightarrow>
                   if glyphs_indices = [] then Inr font1
                   else (case bitmaps_offsets_loop font1 (map snd glyphs_indices) of
                           Inl e \<Rightarrow> Inl e
                         | Inr (bitmaps_offsets, font2) \<Rightarrow>
                             (case char_metrics_loop font2 (map snd glyphs_indices) of
                                Inl e \<Rightarrow> Inl e
                              | Inr (char_metrics, font3) \<Rightarrow>
                                  (case create_bitmaps_loop host font3
                                          (zip char_metrics (map fst glyphs_indices)) of
                                     Inl e \<Rightarrow> Inl e
                                   | Inr (bitmaps, font4) \<Rightarrow>
                                       readinto_loop host font4 (zip bitmaps_offsets bitmaps))))))"

text \<open>\<^verbatim>\<open>get_glyph\<close> (lines 295 to 301).\<close>

definition get_glyph :: "'b Host \<Rightarrow> 'b PcfFont \<Rightarrow> int \<Rightarrow> error + (Glyph option \<times> 'b PcfFont)" where
  "get_glyph host font code_point =
     (case (if \<not> fst (contains (cache font) code_point)
            then load_glyphs host font [code_point]
            else Inr font) of
        Inl e \<Rightarrow> Inl e
      | Inr font1 \<Rightarrow>
          (case get (cache font1) code_point of
             Inl e \<Rightarrow> Inl e
           | Inr (g, c') \<Rightarrow> Inr (g, font1\<lparr>cache := c'\<rparr>)))"

section \<open>Two font files\<close>

text \<open>
  \<open>demo_bytes\<close> is a font file of 184 bytes with four tables (accelerators, compressed
  metrics, bitmaps, encodings) and one glyph, at code point \<open>0x41\<close>, with the metrics
  \<open>(0, 8, 8, 7, 1)\<close> and an all-zero bitmap of 8 rows of one byte. \<open>demo_font\<close> is the font
  object \<^verbatim>\<open>__init__\<close> builds from it with capacity 128, and \<open>demo_host\<close> a host whose
  bitmaps are a width, a height and the raw rows read.
\<close>

definition demo_bytes :: "byte list" where
  "demo_bytes =
    [1, 102, 99, 112, 4, 0, 0, 0, 2, 0, 0, 0, 12, 0, 0, 0,
     48, 0, 0, 0, 136, 0, 0, 0, 4, 0, 0, 0, 12, 1, 0, 0,
     12, 0, 0, 0, 72, 0, 0, 0, 8, 0, 0, 0, 12, 0, 0, 0,
     36, 0, 0, 0, 84, 0, 0, 0, 32, 0, 0, 0, 12, 0, 0, 0,
     16, 0, 0, 0, 120, 0, 0, 0, 12, 1, 0, 0, 0, 1, 128, 136,
     136, 135, 129, 0, 12, 0, 0, 0, 0, 0, 0, 1, 0, 0, 0, 0,
     0, 0, 0, 8, 0, 0, 0, 8, 0, 0, 0, 8, 0, 0, 0, 8,
     0, 0, 0, 0, 0, 0, 0, 0, 12, 0, 0, 0, 0, 65, 0, 65,
     0, 0, 0, 0, 0, 65, 0, 0, 12, 0, 0, 0, 0, 0, 0, 0,
     0, 0, 0, 0, 0, 0, 0, 7, 0, 0, 0, 1, 0, 0, 0, 0,
     0, 0, 0, 8, 0, 8, 0, 7, 0, 1, 0, 0, 0, 0, 0, 8,
     0, 8, 0, 7, 0, 1, 0, 0]"

definition demo_font :: "(int \<times> int \<times> byte list) PcfFont" where
  "demo_font =
     \<lparr>font_file = \<lparr>f_content = demo_bytes, f_pos = 184,
                     f_log = [Seek 0, Read 4, Read 4, Read 16, Read 16, Read 16, Read 16,
                              Seek 88, Read 4, Seek 76, Read 2, Seek 124, Read 10, Seek 148,
                              Read 8, Seek 160, Read 12, Read 12]\<rparr>,
      glyph_padding = 1, metrics_compressed = True,
      min_byte2 = 65, max_byte2 = 65, min_byte1 = 0, max_byte1 = 0, default_char = 65,
      ascent = 7, descent = 1, bounding_box = (8, 8, 0, - 1),
      bitmap_position_lut_location = 92, bitmap_data_location = 112,
      metrics_data_location = 78, encoded_glyph_indices_location = 134,
      cache = \<lparr>lru_cache = [], lru_capacity = 128\<rparr>, heap = []\<rparr>"

definition demo_host :: "(int \<times> int \<times> byte list) Host" where
  "demo_host =
     \<lparr>new_bitmap = (\<lambda>w h value_count.
         if w < 0 \<or> h < 0 then Inl ValueError else Inr (w, h, [])),
      readinto = (\<lambda>b f element_size.
         (case b of (w, h, _) \<Rightarrow>
            (let n = nat (h * bytes_per_row w element_size); (bs, f') = read f n
             in if length bs \<noteq> n then Inl EOFError else Inr ((w, h, bs), f'))))\<rparr>"

text \<open>
  \<open>bad_bytes\<close> is a header and a table of contents with four entries: accelerators,
  BDF accelerators, metrics and BDF encodings, each of format \<open>0x0C\<close> (most significant
  byte and bit first). It has no bitmaps table.
\<close>

definition bad_bytes :: "byte list" where
  "bad_bytes =
    [1, 102, 99, 112, 4, 0, 0, 0, 2, 0, 0, 0, 12, 0, 0, 0,
     0, 0, 0, 0, 72, 0, 0, 0, 0, 1, 0, 0, 12, 0, 0, 0,
     0, 0, 0, 0, 72, 0, 0, 0, 4, 0, 0, 0, 12, 0, 0, 0,
     0, 0, 0, 0, 72, 0, 0, 0, 32, 0, 0, 0, 12, 0, 0, 0,
     0, 0, 0, 0, 72, 0, 0, 0]"

section \<open>Properties of the ordered dictionary\<close>

lemma od_keys_setitem:
  "set (od_keys (od_setitem d key val)) = insert key (set (od_keys d))"
  by (induction d) (auto simp: od_keys_def)

lemma od_setitem_distinct:
  "distinct (od_keys d) \<Longrightarrow> distinct (od_keys (od_setitem d key val))"
proof (induction d)
  case Nil
  then show ?case by (simp add: od_keys_def)
next
  case (Cons p ps)
  have "set (od_keys (od_setitem ps key val)) = insert key (set (od_keys ps))"
    by (rule od_keys_setitem)
  with Cons show ?case by (auto simp: od_keys_def)
qed

lemma od_setitem_map_of: "map_of (od_setitem d key val) key = Some val"
  by (induction d) auto

lemma od_filter_absent:
  "key \<notin> set (od_keys d) \<Longrightarrow> filter (\<lambda>p. fst p \<noteq> key) d = d"
  by (induction d) (auto simp: od_keys_def)

lemma od_setitem_filter:
  "filter (\<lambda>p. fst p \<noteq> key) (od_setitem d key val) = filter (\<lambda>p. fst p \<noteq> key) d"
  by (induction d) auto

lemma od_move_setitem:
  "od_move_to_front (od_setitem d key val) key
     = Inr ((key, val) # filter (\<lambda>p. fst p \<noteq> key) d)"
  by (simp add: od_move_to_front_def od_setitem_map_of od_setitem_filter)

lemma od_keys_filter: "od_keys (filter (\<lambda>p. fst p \<noteq> key) d) = removeAll key (od_keys d)"
  by (induction d) (auto simp: od_keys_def)

lemma od_keys_butlast: "od_keys (butlast d) = butlast (od_keys d)"
  by (simp add: od_keys_def map_butlast)

lemma od_map_of_present:
  "key \<in> set (od_keys d) \<Longrightarrow> \<exists>val. map_of d key = Some val"
  by (induction d) (auto simp: od_keys_def)

lemma od_map_of_absent:
  "key \<notin> set (od_keys d) \<Longrightarrow> map_of d key = None"
  by (induction d) (auto simp: od_keys_def)

lemma od_move_keys_distinct:
  "distinct (od_keys d) \<Longrightarrow> distinct (od_keys ((key, val) # filter (\<lambda>p. fst p \<noteq> key) d))"
proof -
  assume "distinct (od_keys d)"
  then have "distinct (removeAll key (od_keys d))" by (rule distinct_removeAll)
  then have "distinct (key # removeAll key (od_keys d))" by simp
  moreover have "od_keys ((key, val) # filter (\<lambda>p. fst p \<noteq> key) d)
                   = key # od_keys (filter (\<lambda>p. fst p \<noteq> key) d)"
    by (simp add: od_keys_def)
  ultimately show ?thesis by (simp only: od_keys_filter)
qed

lemma od_distinct_set_move:
  assumes "distinct (od_keys d)" and "map_of d key = Some val"
  shows "set ((key, val) # filter (\<lambda>p. fst p \<noteq> key) d) = set d"
proof -
  have mem: "(key, val) \<in> set d"
    using assms(2) by (rule map_of_SomeD)
  have uniq: "v = val" if "(key, v) \<in> set d" for v
  proof -
    from assms(1) that have "map_of d key = Some v" by (simp add: od_keys_def)
    with assms(2) show ?thesis by simp
  qed
  from mem uniq have iff: "\<And>v. ((key, v) \<in> set d) = (v = val)"
    by blast
  show ?thesis
  proof (rule set_eqI)
    fix p :: "'a \<times> 'b"
    obtain k v where p: "p = (k, v)" by (cases p)
    show "(p \<in> set ((key, val) # filter (\<lambda>p. fst p \<noteq> key) d)) = (p \<in> set d)"
      using iff p by auto
  qed
qed

lemma od_length_filter_present:
  assumes "distinct (od_keys d)" and "key \<in> set (od_keys d)"
  shows "Suc (length (filter (\<lambda>p. fst p \<noteq> key) d)) = length d"
proof -
  have "length (filter (\<lambda>p. fst p \<noteq> key) d) = length (od_keys (filter (\<lambda>p. fst p \<noteq> key) d))"
    by (simp add: od_keys_def)
  also have "\<dots> = length (remove1 key (od_keys d))"
    using assms(1) by (simp add: od_keys_filter distinct_remove1_removeAll)
  also have "\<dots> = length (od_keys d) - 1"
    using assms(2) by (simp add: length_remove1)
  finally have "length (filter (\<lambda>p. fst p \<noteq> key) d) = length d - 1"
    by (simp add: od_keys_def)
  moreover from assms(2) have "d \<noteq> []" by (auto simp: od_keys_def)
  ultimately show ?thesis by (cases d) simp_all
qed

section \<open>Properties of \<^verbatim>\<open>put\<close> and \<^verbatim>\<open>get\<close>\<close>

text \<open>What \<^verbatim>\<open>put\<close> does, in one equation for each side of the capacity test.\<close>

lemma put_below_capacity:
  "int (length (lru_cache c)) < lru_capacity c \<Longrightarrow>
   put c key val = Inr (c\<lparr>lru_cache := (key, val) # filter (\<lambda>p. fst p \<noteq> key) (lru_cache c)\<rparr>)"
  by (simp add: put_def od_move_setitem)

lemma put_at_capacity:
  "lru_capacity c \<le> int (length (lru_cache c)) \<Longrightarrow> lru_cache c \<noteq> [] \<Longrightarrow>
   put c key val
     = Inr (c\<lparr>lru_cache := (key, val) # filter (\<lambda>p. fst p \<noteq> key) (butlast (lru_cache c))\<rparr>)"
  by (simp add: put_def od_popitem_def od_move_setitem)

lemma put_empty_at_capacity:
  "lru_capacity c \<le> 0 \<Longrightarrow> lru_cache c = [] \<Longrightarrow> put c key val = Inl KeyError"
  by (simp add: put_def od_popitem_def)

lemma put_succeeds:
  assumes "1 \<le> lru_capacity c"
  shows "\<exists>D. put c key val = Inr (c\<lparr>lru_cache := (key, val) # filter (\<lambda>p. fst p \<noteq> key) D\<rparr>)"
proof (cases "int (length (lru_cache c)) < lru_capacity c")
  case True
  then show ?thesis by (auto simp: put_below_capacity)
next
  case False
  with assms have "lru_cache c \<noteq> []" by auto
  with False show ?thesis by (auto simp: put_at_capacity)
qed

lemma get_present:
  "map_of (lru_cache c) key = Some (Some val) \<Longrightarrow>
   get c key
     = Inr (Some val, c\<lparr>lru_cache := (key, Some val) # filter (\<lambda>p. fst p \<noteq> key) (lru_cache c)\<rparr>)"
  by (simp add: get_def Let_def od_move_to_front_def)

lemma get_absent:
  "map_of (lru_cache c) key = None \<Longrightarrow> get c key = Inr (None, c)"
  by (simp add: get_def)

lemma get_stored_None:
  "map_of (lru_cache c) key = Some None \<Longrightarrow> get c key = Inr (None, c)"
  by (simp add: get_def)

lemma get_front:
  "get (c\<lparr>lru_cache := (key, Some val) # filter (\<lambda>p. fst p \<noteq> key) D\<rparr>) key
     = Inr (Some val, c\<lparr>lru_cache := (key, Some val) # filter (\<lambda>p. fst p \<noteq> key) D\<rparr>)"
  by (simp add: get_def Let_def od_move_to_front_def)

lemma contains_front:
  "fst (contains (c\<lparr>lru_cache := (key, val) # D\<rparr>) key)"
  by (simp add: contains_def od_keys_def)

text \<open>Both methods keep the keys distinct, so every cache built from an empty one by calls
  of its methods is a dictionary.\<close>

lemma put_distinct:
  assumes "distinct (od_keys (lru_cache c))" and "put c key val = Inr c'"
  shows "distinct (od_keys (lru_cache c'))"
proof (cases "int (length (lru_cache c)) < lru_capacity c")
  case True
  with assms(2) have "lru_cache c' = (key, val) # filter (\<lambda>p. fst p \<noteq> key) (lru_cache c)"
    by (auto simp: put_below_capacity)
  with assms(1) show ?thesis by (simp only: od_move_keys_distinct)
next
  case False
  then have full: "lru_capacity c \<le> int (length (lru_cache c))" by simp
  show ?thesis
  proof (cases "lru_cache c = []")
    case True
    with full have "put c key val = Inl KeyError" by (simp add: put_def od_popitem_def)
    with assms(2) show ?thesis by simp
  next
    case False
    with full assms(2)
    have eq: "lru_cache c' = (key, val) # filter (\<lambda>p. fst p \<noteq> key) (butlast (lru_cache c))"
      by (auto simp: put_at_capacity)
    from assms(1) have "distinct (od_keys (butlast (lru_cache c)))"
      by (simp add: od_keys_butlast distinct_butlast)
    then show ?thesis unfolding eq by (rule od_move_keys_distinct)
  qed
qed

lemma get_distinct:
  assumes "distinct (od_keys (lru_cache c))" and "get c key = Inr (r, c')"
  shows "distinct (od_keys (lru_cache c'))"
proof (cases "map_of (lru_cache c) key")
  case None
  with assms show ?thesis by (simp add: get_absent)
next
  case (Some data)
  show ?thesis
  proof (cases data)
    case None
    with Some assms show ?thesis by (simp add: get_stored_None)
  next
    case (Some val)
    with \<open>map_of (lru_cache c) key = Some data\<close> assms(2)
    have "lru_cache c' = (key, Some val) # filter (\<lambda>p. fst p \<noteq> key) (lru_cache c)"
      by (auto simp: get_present)
    with assms(1) show ?thesis by (simp only: od_move_keys_distinct)
  qed
qed

lemma length_filter_butlast:
  "d \<noteq> [] \<Longrightarrow> Suc (length (filter P (butlast d))) \<le> length d"
proof -
  assume "d \<noteq> []"
  then have "Suc (length (butlast d)) = length d" by simp
  moreover have "length (filter P (butlast d)) \<le> length (butlast d)" by (rule length_filter_le)
  ultimately show ?thesis by linarith
qed

lemma put_bounded:
  assumes "1 \<le> lru_capacity c" and "int (length (lru_cache c)) \<le> lru_capacity c"
  shows "\<exists>c'. put c key val = Inr c' \<and> lru_capacity c' = lru_capacity c
           \<and> int (length (lru_cache c')) \<le> lru_capacity c'"
proof (cases "int (length (lru_cache c)) < lru_capacity c")
  case True
  have "int (length (filter (\<lambda>p. fst p \<noteq> key) (lru_cache c))) \<le> int (length (lru_cache c))"
    by simp
  with True have "1 + int (length (filter (\<lambda>p. fst p \<noteq> key) (lru_cache c))) \<le> lru_capacity c"
    by linarith
  with True show ?thesis by (simp add: put_below_capacity)
next
  case False
  with assms have full: "int (length (lru_cache c)) = lru_capacity c" by simp
  with assms have ne: "lru_cache c \<noteq> []" by auto
  have "Suc (length (filter (\<lambda>p. fst p \<noteq> key) (butlast (lru_cache c)))) \<le> length (lru_cache c)"
    using ne by (rule length_filter_butlast)
  with full have "1 + int (length (filter (\<lambda>p. fst p \<noteq> key) (butlast (lru_cache c)))) \<le> lru_capacity c"
    by linarith
  with full ne show ?thesis by (simp add: put_at_capacity)
qed

lemma put_all_bounded:
  "1 \<le> lru_capacity c \<Longrightarrow> int (length (lru_cache c)) \<le> lru_capacity c \<Longrightarrow>
   \<exists>c'. put_all c kvs = Inr c' \<and> lru_capacity c' = lru_capacity c
        \<and> int (length (lru_cache c')) \<le> lru_capacity c'"
proof (induction kvs arbitrary: c)
  case Nil
  then show ?case by simp
next
  case (Cons kv kvs)
  obtain key val where kv: "kv = (key, val)" by (cases kv)
  from put_bounded [OF Cons.prems] obtain c1 where
    c1: "put c key val = Inr c1" "lru_capacity c1 = lru_capacity c"
        "int (length (lru_cache c1)) \<le> lru_capacity c1"
    by blast
  from Cons.IH [of c1] c1 Cons.prems(1) obtain c' where
    "put_all c1 kvs = Inr c'" "lru_capacity c' = lru_capacity c1"
    "int (length (lru_cache c')) \<le> lru_capacity c'"
    by auto
  with c1 kv show ?case by simp
qed

section \<open>The cache never exceeds its capacity\<close>

text \<open>
  C3. For every capacity \<open>C \<ge> 1\<close> and every finite sequence of \<^verbatim>\<open>put\<close> calls applied to
  an initially empty \<^verbatim>\<open>LruCache\<close> of capacity \<open>C\<close>, every call returns and the cache
  holds at most \<open>C\<close> entries after the sequence.
\<close>

theorem put_all_within_capacity:
  "1 \<le> C \<Longrightarrow>
   \<exists>c. put_all (LruCache_init C) kvs = Inr c \<and> int (length (lru_cache c)) \<le> C"
proof -
  assume C: "1 \<le> C"
  have "1 \<le> lru_capacity (LruCache_init C :: ('a, 'b) LruCache)"
    using C by (simp add: LruCache_init_def)
  moreover have "int (length (lru_cache (LruCache_init C :: ('a, 'b) LruCache)))
                   \<le> lru_capacity (LruCache_init C :: ('a, 'b) LruCache)"
    using C by (simp add: LruCache_init_def)
  ultimately obtain c' where
    "put_all (LruCache_init C) kvs = Inr (c' :: ('a, 'b) LruCache)"
    "lru_capacity c' = lru_capacity (LruCache_init C :: ('a, 'b) LruCache)"
    "int (length (lru_cache c')) \<le> lru_capacity c'"
    using put_all_bounded by blast
  then show ?thesis by (auto simp: LruCache_init_def)
qed

theorem put_all_within_capacity_witness:
  "\<exists>c. put_all (LruCache_init 2) [(1::int, Some ''a''), (2, None), (1, Some ''c''), (3, Some ''d'')] = Inr c
       \<and> int (length (lru_cache c)) \<le> 2"
  using put_all_within_capacity [of 2 "[(1::int, Some ''a''), (2, None), (1, Some ''c''), (3, Some ''d'')]"]
  by simp

section \<open>The cache follows the touch order\<close>

lemma take_removeAll_shift:
  "distinct h \<Longrightarrow> key \<in> set (take (Suc m) h) \<Longrightarrow>
   take m (removeAll key h) = removeAll key (take (Suc m) h)"
proof (induction h arbitrary: m)
  case Nil
  then show ?case by simp
next
  case (Cons x xs)
  show ?case
  proof (cases "x = key")
    case True
    with Cons.prems have "key \<notin> set xs" by simp
    then have "key \<notin> set (take m xs)" by (auto dest: in_set_takeD)
    with \<open>key \<notin> set xs\<close>
    have "removeAll key xs = xs" and "removeAll key (take m xs) = take m xs"
      by simp_all
    with True show ?thesis by simp
  next
    case False
    with Cons.prems have mem: "key \<in> set (take m xs)" by simp
    then obtain m' where m: "m = Suc m'" by (cases m) auto
    from Cons.prems have "distinct xs" by simp
    from Cons.IH [OF this, of m'] mem m
    have "take m' (removeAll key xs) = removeAll key (take (Suc m') xs)" by simp
    with False m show ?thesis by simp
  qed
qed

lemma take_move_to_front:
  assumes "distinct h" and "key \<in> set (take n h)"
  shows "take n (key # removeAll key h) = key # removeAll key (take n h)"
proof (cases n)
  case 0
  with assms show ?thesis by simp
next
  case (Suc m)
  with assms show ?thesis by (simp add: take_removeAll_shift)
qed

lemma take_push_full:
  "1 \<le> n \<Longrightarrow> n \<le> length h \<Longrightarrow> take n (key # h) = key # butlast (take n h)"
  by (cases n) (simp_all add: butlast_take)

lemma take_push_short:
  "length h < n \<Longrightarrow> take n (key # h) = key # take n h"
  by (cases n) simp_all

text \<open>The invariant of a run: the keys of the cache are the first \<open>C\<close> keys of the touch
  order.\<close>

lemma run_ops_touch_order:
  assumes "1 \<le> C" and "lru_capacity c = int C" and "distinct h"
    and "od_keys (lru_cache c) = take C h"
    and "distinct (put_keys ops)" and "set (put_keys ops) \<inter> set h = {}"
    and "None \<notin> snd ` set (lru_cache c)" and "None \<notin> set (put_values ops)"
  shows "\<exists>c'. run_ops c ops = Inr c' \<and> lru_capacity c' = int C
           \<and> od_keys (lru_cache c') = take C (touch_order_spec C h ops)"
  using assms
proof (induction ops arbitrary: c h)
  case Nil
  then show ?case by simp
next
  case (Cons op ops)
  show ?case
  proof (cases op)
    case (Put key val)
    with Cons.prems have fresh: "key \<notin> set h" by auto
    then have absent: "key \<notin> set (od_keys (lru_cache c))"
      using Cons.prems(4) by (auto dest: in_set_takeD)
    define d where "d = (if C \<le> length (lru_cache c) then butlast (lru_cache c) else lru_cache c)"
    define c1 where "c1 = c\<lparr>lru_cache := (key, val) # d\<rparr>"
    have len: "length (lru_cache c) = length (take C h)"
      using Cons.prems(4) by (metis length_map od_keys_def)
    have "key \<notin> set (od_keys (butlast (lru_cache c)))"
      using absent by (auto simp: od_keys_butlast dest: in_set_butlastD)
    with absent have fd: "filter (\<lambda>p. fst p \<noteq> key) d = d"
      by (simp add: d_def od_filter_absent)
    have ne: "C \<le> length (lru_cache c) \<Longrightarrow> lru_cache c \<noteq> []"
      using Cons.prems(1) by auto
    have put: "put c key val = Inr c1"
    proof (cases "C \<le> length (lru_cache c)")
      case True
      with ne have "lru_cache c \<noteq> []" by simp
      with True Cons.prems(2) fd show ?thesis
        by (simp add: put_at_capacity c1_def d_def)
    next
      case False
      with Cons.prems(2) fd show ?thesis
        by (simp add: put_below_capacity c1_def d_def)
    qed
    have keys: "od_keys (lru_cache c1) = take C (key # h)"
    proof (cases "C \<le> length (lru_cache c)")
      case True
      with len have "C \<le> length h" by simp
      with Cons.prems(1) have "take C (key # h) = key # butlast (take C h)"
        by (simp add: take_push_full)
      moreover have "od_keys (butlast (lru_cache c)) = butlast (take C h)"
        using Cons.prems(4) by (simp add: od_keys_butlast)
      ultimately show ?thesis using True
        by (simp add: c1_def d_def od_keys_def)
    next
      case False
      with len have "length h < C" by simp
      then have "take C (key # h) = key # take C h" by (rule take_push_short)
      with False Cons.prems(4) show ?thesis
        by (simp add: c1_def d_def) (simp add: od_keys_def)
    qed
    have "\<exists>c'. run_ops c1 ops = Inr c' \<and> lru_capacity c' = int C
           \<and> od_keys (lru_cache c') = take C (touch_order_spec C (key # h) ops)"
    proof (rule Cons.IH)
      show "1 \<le> C" by (rule Cons.prems(1))
      show "lru_capacity c1 = int C" using Cons.prems(2) by (simp add: c1_def)
      show "distinct (key # h)" using fresh Cons.prems(3) by simp
      show "od_keys (lru_cache c1) = take C (key # h)" by (rule keys)
      show "distinct (put_keys ops)" using Cons.prems(5) Put by simp
      show "set (put_keys ops) \<inter> set (key # h) = {}" using Cons.prems(5,6) Put by auto
      show "None \<notin> set (put_values ops)" using Cons.prems(8) Put by simp
      have "val \<noteq> None" using Cons.prems(8) Put by (cases val) simp_all
      moreover have "set d \<subseteq> set (lru_cache c)"
        by (auto simp: d_def dest: in_set_butlastD)
      ultimately show "None \<notin> snd ` set (lru_cache c1)"
        using Cons.prems(7) by (auto simp: c1_def)
    qed
    with put Put fresh show ?thesis by simp
  next
    case (Get key)
    show ?thesis
    proof (cases "key \<in> set (take C h)")
      case True
      with Cons.prems(4) have "key \<in> set (od_keys (lru_cache c))" by simp
      then obtain data where data: "map_of (lru_cache c) key = Some data"
        using od_map_of_present by fastforce
      then have "(key, data) \<in> set (lru_cache c)" by (rule map_of_SomeD)
      then have "data \<in> snd ` set (lru_cache c)" by (rule rev_image_eqI) simp
      with Cons.prems(7) obtain val where "data = Some val" by (cases data) auto
      with data have val: "map_of (lru_cache c) key = Some (Some val)" by simp
      define c1 where "c1 = c\<lparr>lru_cache := (key, Some val) # filter (\<lambda>p. fst p \<noteq> key) (lru_cache c)\<rparr>"
      from val have get: "get c key = Inr (Some val, c1)"
        by (simp add: get_present c1_def)
      have "od_keys (filter (\<lambda>p. fst p \<noteq> key) (lru_cache c)) = removeAll key (take C h)"
        using Cons.prems(4) by (simp add: od_keys_filter)
      moreover have "take C (key # removeAll key h) = key # removeAll key (take C h)"
        using Cons.prems(3) True by (rule take_move_to_front)
      ultimately have keys: "od_keys (lru_cache c1) = take C (key # removeAll key h)"
        by (simp add: c1_def od_keys_def)
      have "\<exists>c'. run_ops c1 ops = Inr c' \<and> lru_capacity c' = int C
             \<and> od_keys (lru_cache c') = take C (touch_order_spec C (key # removeAll key h) ops)"
      proof (rule Cons.IH)
        show "1 \<le> C" by (rule Cons.prems(1))
        show "lru_capacity c1 = int C" using Cons.prems(2) by (simp add: c1_def)
        show "distinct (key # removeAll key h)" using Cons.prems(3) by (simp add: distinct_removeAll)
        show "od_keys (lru_cache c1) = take C (key # removeAll key h)" by (rule keys)
        show "distinct (put_keys ops)" using Cons.prems(5) Get by simp
        show "set (put_keys ops) \<inter> set (key # removeAll key h) = {}"
          using Cons.prems(6) Get True by (auto dest: in_set_takeD)
        show "None \<notin> set (put_values ops)" using Cons.prems(8) Get by simp
        show "None \<notin> snd ` set (lru_cache c1)"
          using Cons.prems(7) by (auto simp: c1_def)
      qed
      with get Get True show ?thesis by simp
    next
      case False
      with Cons.prems(4) have "key \<notin> set (od_keys (lru_cache c))" by simp
      then have "map_of (lru_cache c) key = None" by (rule od_map_of_absent)
      then have get: "get c key = Inr (None, c)" by (rule get_absent)
      have "\<exists>c'. run_ops c ops = Inr c' \<and> lru_capacity c' = int C
             \<and> od_keys (lru_cache c') = take C (touch_order_spec C h ops)"
      proof (rule Cons.IH)
        show "1 \<le> C" by (rule Cons.prems(1))
        show "lru_capacity c = int C" by (rule Cons.prems(2))
        show "distinct h" by (rule Cons.prems(3))
        show "od_keys (lru_cache c) = take C h" by (rule Cons.prems(4))
        show "distinct (put_keys ops)" using Cons.prems(5) Get by simp
        show "set (put_keys ops) \<inter> set h = {}" using Cons.prems(6) Get by simp
        show "None \<notin> set (put_values ops)" using Cons.prems(8) Get by simp
        show "None \<notin> snd ` set (lru_cache c)" by (rule Cons.prems(7))
      qed
      with get Get False show ?thesis by simp
    qed
  qed
qed

lemma touch_order_length:
  "distinct h \<Longrightarrow> distinct (put_keys ops) \<Longrightarrow> set (put_keys ops) \<inter> set h = {} \<Longrightarrow>
   length (touch_order_spec C h ops) = length h + length (put_keys ops)"
proof (induction ops arbitrary: h)
  case Nil
  then show ?case by simp
next
  case (Cons op ops)
  show ?case
  proof (cases op)
    case (Put key val)
    with Cons.prems have fresh: "key \<notin> set h" by auto
    have "length (touch_order_spec C (key # h) ops) = length (key # h) + length (put_keys ops)"
      using Cons.prems fresh Put by (intro Cons.IH) auto
    with Put fresh show ?thesis by simp
  next
    case (Get key)
    show ?thesis
    proof (cases "key \<in> set (take C h)")
      case True
      then have mem: "key \<in> set h" by (rule in_set_takeD)
      with Cons.prems(1) have len: "length (key # removeAll key h) = length h"
        by (simp add: distinct_remove1_removeAll [symmetric] length_remove1)
           (metis Suc_pred length_pos_if_in_set)
      have "length (touch_order_spec C (key # removeAll key h) ops)
              = length (key # removeAll key h) + length (put_keys ops)"
        using Cons.prems mem Get by (intro Cons.IH) (auto simp: distinct_removeAll)
      with Get True len show ?thesis by simp
    next
      case False
      have "length (touch_order_spec C h ops) = length h + length (put_keys ops)"
        using Cons.prems Get by (intro Cons.IH) auto
      with Get False show ?thesis by simp
    qed
  qed
qed

text \<open>
  C2, for values other than \<^verbatim>\<open>None\<close>. For every cache of capacity \<open>C \<ge> 1\<close> that holds
  \<open>C\<close> entries, \<^verbatim>\<open>put(k, v)\<close> with \<open>k\<close> absent removes exactly the entry at the end of the
  order and places the new entry at the front, the others keeping their order (for every
  value \<open>v\<close>). And for every sequence of \<^verbatim>\<open>put\<close> calls with distinct keys and values
  other than \<^verbatim>\<open>None\<close>, interleaved with \<^verbatim>\<open>get\<close> calls, applied to an empty cache, every
  call returns and the keys of the cache, front to end, are the first \<open>C\<close> keys of the touch
  order (most recently touched first, a touch being a \<^verbatim>\<open>put\<close> or a \<^verbatim>\<open>get\<close> of a present
  key): so the entry at the end, the one a \<^verbatim>\<open>put\<close> evicts, is the one touched least
  recently, and after more than \<open>C\<close> puts the cache holds exactly \<open>C\<close> entries.
\<close>

theorem lru_law:
  fixes c :: "('k, 'v) LruCache" and ops :: "('k, 'v) cache_op list"
  assumes "1 \<le> C"
  shows "(lru_capacity c = C \<and> int (length (lru_cache c)) = C
            \<and> key \<notin> set (od_keys (lru_cache c))
          \<longrightarrow> put c key val = Inr (c\<lparr>lru_cache := (key, val) # butlast (lru_cache c)\<rparr>))
       \<and> (distinct (put_keys ops) \<and> None \<notin> set (put_values ops)
          \<longrightarrow> (\<exists>c'. run_ops (LruCache_init C) ops = Inr c'
                 \<and> od_keys (lru_cache c') = take (nat C) (touch_order_spec (nat C) [] ops)
                 \<and> (C < int (length (put_keys ops)) \<longrightarrow> int (length (lru_cache c')) = C)))"
proof (intro conjI impI)
  assume full: "lru_capacity c = C \<and> int (length (lru_cache c)) = C
                  \<and> key \<notin> set (od_keys (lru_cache c))"
  with assms have ne: "lru_cache c \<noteq> []" by auto
  from full have "key \<notin> set (od_keys (butlast (lru_cache c)))"
    by (auto simp: od_keys_butlast dest: in_set_butlastD)
  then have "filter (\<lambda>p. fst p \<noteq> key) (butlast (lru_cache c)) = butlast (lru_cache c)"
    by (rule od_filter_absent)
  with full ne show "put c key val = Inr (c\<lparr>lru_cache := (key, val) # butlast (lru_cache c)\<rparr>)"
    by (simp add: put_at_capacity)
next
  assume h: "distinct (put_keys ops) \<and> None \<notin> set (put_values ops)"
  then have dist: "distinct (put_keys ops)" and vals: "None \<notin> set (put_values ops)"
    by simp_all
  have "\<exists>c'. run_ops (LruCache_init C) ops = Inr (c' :: ('k, 'v) LruCache)
          \<and> lru_capacity c' = int (nat C)
          \<and> od_keys (lru_cache c') = take (nat C) (touch_order_spec (nat C) [] ops)"
    using assms dist vals
    by (intro run_ops_touch_order) (simp_all add: LruCache_init_def od_keys_def)
  then obtain c' :: "('k, 'v) LruCache" where
    run: "run_ops (LruCache_init C) ops = Inr c'"
    and keys: "od_keys (lru_cache c') = take (nat C) (touch_order_spec (nat C) [] ops)"
    by blast
  have "length (touch_order_spec (nat C) [] ops) = length (put_keys ops)"
    using touch_order_length [of "[]" ops "nat C"] dist by simp
  with keys have "length (od_keys (lru_cache c')) = min (length (put_keys ops)) (nat C)"
    by simp
  then have "C < int (length (put_keys ops)) \<longrightarrow> int (length (lru_cache c')) = C"
    using assms by (auto simp: od_keys_def)
  with run keys
  show "\<exists>c'. run_ops (LruCache_init C) ops = Inr c'
          \<and> od_keys (lru_cache c') = take (nat C) (touch_order_spec (nat C) [] ops)
          \<and> (C < int (length (put_keys ops)) \<longrightarrow> int (length (lru_cache c')) = C)"
    by blast
qed

theorem lru_law_witness:
  "(1::int) \<le> 2
   \<and> put \<lparr>lru_cache = [(2::int, Some ''b''), (1, Some ''a'')], lru_capacity = 2\<rparr> 3 (Some ''c'')
       = Inr \<lparr>lru_cache = [(3, Some ''c''), (2, Some ''b'')], lru_capacity = 2\<rparr>
   \<and> (\<exists>c'. run_ops (LruCache_init 2)
               [Put (1::int) (Some ''a''), Put 2 (Some ''b''), Get 1, Put 3 (Some ''c'')] = Inr c'
         \<and> od_keys (lru_cache c') = [3, 1] \<and> int (length (lru_cache c')) = 2)"
  using lru_law [of 2 "\<lparr>lru_cache = [(2::int, Some ''b''), (1, Some ''a'')], lru_capacity = 2\<rparr>"
                   3 "Some ''c''"
                   "[Put (1::int) (Some ''a''), Put 2 (Some ''b''), Get 1, Put 3 (Some ''c'')]"]
  by (simp add: od_keys_def)

text \<open>
  C2 for every value does not hold. With capacity 2, after \<^verbatim>\<open>put(2, None)\<close> and
  \<^verbatim>\<open>put(1, 'a')\<close> the key 2 is present; \<^verbatim>\<open>get(2)\<close> reads \<^verbatim>\<open>None\<close> and does not move it,
  so \<^verbatim>\<open>put(3, 'c')\<close> evicts key 2 and the cache ends with the keys \<open>[3, 1]\<close>, while the two
  most recently touched keys are \<open>[3, 2]\<close>.
\<close>

theorem lru_law_stored_None_counterexample:
  "distinct (put_keys [Put (2::int) None, Put 1 (Some ''a''), Get 2, Put 3 (Some ''c'')])
   \<and> run_ops (LruCache_init 2) [Put (2::int) None, Put 1 (Some ''a'')]
       = Inr \<lparr>lru_cache = [(1, Some ''a''), (2, None)], lru_capacity = 2\<rparr>
   \<and> run_ops (LruCache_init 2) [Put (2::int) None, Put 1 (Some ''a''), Get 2, Put 3 (Some ''c'')]
       = Inr \<lparr>lru_cache = [(3, Some ''c''), (1, Some ''a'')], lru_capacity = 2\<rparr>
   \<and> take 2 (touch_order_spec 2 []
               [Put (2::int) None, Put 1 (Some ''a''), Get 2, Put 3 (Some ''c'')]) = [3, 2]"
  by code_simp

section \<open>\<^verbatim>\<open>get\<close> moves to the front, \<^verbatim>\<open>contains\<close> changes nothing\<close>

text \<open>
  C7, for a stored value other than \<^verbatim>\<open>None\<close>. For every cache (a dictionary: its keys
  are distinct) and every key present in it with a value \<open>val\<close> other than \<^verbatim>\<open>None\<close>,
  \<^verbatim>\<open>get(key)\<close> returns \<open>val\<close>, leaves the set of items and their number unchanged, and
  moves the key to the front, the other items keeping their order; and for every cache
  and every key, without any condition, \<^verbatim>\<open>contains(key)\<close> answers membership and returns
  the cache as it was, contents and order.
\<close>

theorem get_moves_to_front:
  "(distinct (od_keys (lru_cache c)) \<and> map_of (lru_cache c) key = Some (Some val)
      \<longrightarrow> get c key
            = Inr (Some val,
                   c\<lparr>lru_cache := (key, Some val) # filter (\<lambda>p. fst p \<noteq> key) (lru_cache c)\<rparr>)
          \<and> set ((key, Some val) # filter (\<lambda>p. fst p \<noteq> key) (lru_cache c)) = set (lru_cache c)
          \<and> length ((key, Some val) # filter (\<lambda>p. fst p \<noteq> key) (lru_cache c))
              = length (lru_cache c))
   \<and> contains c key' = (key' \<in> set (od_keys (lru_cache c)), c)"
proof (intro conjI impI)
  assume h: "distinct (od_keys (lru_cache c)) \<and> map_of (lru_cache c) key = Some (Some val)"
  then have d: "distinct (od_keys (lru_cache c))"
    and m: "map_of (lru_cache c) key = Some (Some val)"
    by simp_all
  show "get c key
          = Inr (Some val,
                 c\<lparr>lru_cache := (key, Some val) # filter (\<lambda>p. fst p \<noteq> key) (lru_cache c)\<rparr>)"
    using m by (rule get_present)
  show "set ((key, Some val) # filter (\<lambda>p. fst p \<noteq> key) (lru_cache c)) = set (lru_cache c)"
    using d m by (rule od_distinct_set_move)
  from m have "(key, Some val) \<in> set (lru_cache c)" by (rule map_of_SomeD)
  then have "key \<in> fst ` set (lru_cache c)" by (rule rev_image_eqI) simp
  then have "key \<in> set (od_keys (lru_cache c))" by (simp add: od_keys_def)
  with d show "length ((key, Some val) # filter (\<lambda>p. fst p \<noteq> key) (lru_cache c))
                 = length (lru_cache c)"
    by (simp add: od_length_filter_present)
next
  show "contains c key' = (key' \<in> set (od_keys (lru_cache c)), c)"
    by (simp add: contains_def)
qed

theorem get_moves_to_front_witness:
  "distinct (od_keys [(1::int, Some ''a''), (2, Some ''b''), (3, Some ''c'')])
   \<and> get \<lparr>lru_cache = [(1::int, Some ''a''), (2, Some ''b''), (3, Some ''c'')], lru_capacity = 3\<rparr> 3
       = Inr (Some ''c'',
              \<lparr>lru_cache = [(3, Some ''c''), (1, Some ''a''), (2, Some ''b'')], lru_capacity = 3\<rparr>)
   \<and> contains \<lparr>lru_cache = ([] :: (int \<times> string option) list), lru_capacity = 3\<rparr> 3
       = (False, \<lparr>lru_cache = [], lru_capacity = 3\<rparr>)"
proof -
  have a: "distinct (od_keys [(1::int, Some ''a''), (2, Some ''b''), (3, Some ''c'')])"
    by (simp add: od_keys_def)
  have b: "map_of [(1::int, Some ''a''), (2, Some ''b''), (3, Some ''c'')] 3 = Some (Some ''c'')"
    by simp
  from a b
    get_moves_to_front
      [of "\<lparr>lru_cache = [(1::int, Some ''a''), (2, Some ''b''), (3, Some ''c'')], lru_capacity = 3\<rparr>"
          3 "''c''" 3]
    get_moves_to_front
      [of "\<lparr>lru_cache = ([] :: (int \<times> string option) list), lru_capacity = 3\<rparr>" 3 "''c''" 3]
  show ?thesis by (simp add: od_keys_def)
qed

text \<open>
  C7 for every stored value does not hold. In the cache \<open>[(1, 'a'), (2, None)]\<close> the key
  2 is present; \<^verbatim>\<open>get(2)\<close> returns \<^verbatim>\<open>None\<close>, the stored value, and leaves key 2 at the end
  of the order.
\<close>

theorem get_stored_None_counterexample:
  "distinct (od_keys [(1::int, Some ''a''), (2, None)])
   \<and> fst (contains \<lparr>lru_cache = [(1::int, Some ''a''), (2, None)], lru_capacity = 2\<rparr> 2)
   \<and> get \<lparr>lru_cache = [(1::int, Some ''a''), (2, None)], lru_capacity = 2\<rparr> 2
       = Inr (None, \<lparr>lru_cache = [(1, Some ''a''), (2, None)], lru_capacity = 2\<rparr>)"
  by code_simp

section \<open>Overwriting a key of a full cache evicts\<close>

text \<open>
  C9. For every cache of capacity \<open>C \<ge> 1\<close> that holds exactly \<open>C\<close> entries, \<^verbatim>\<open>put(k, v)\<close>
  with \<open>k\<close> present still removes the entry at the end of the order before it writes; when
  \<open>k\<close> is not the key of that entry, the key of that entry is gone from the cache afterwards
  and the cache holds \<open>C - 1\<close> entries.
\<close>

theorem put_overwrite_evicts:
  assumes "1 \<le> lru_capacity c" and "int (length (lru_cache c)) = lru_capacity c"
    and "distinct (od_keys (lru_cache c))" and "key \<in> set (od_keys (lru_cache c))"
  shows "put c key val
           = Inr (c\<lparr>lru_cache := (key, val) # filter (\<lambda>p. fst p \<noteq> key) (butlast (lru_cache c))\<rparr>)
       \<and> (key \<noteq> fst (last (lru_cache c))
          \<longrightarrow> fst (last (lru_cache c))
                 \<notin> set (od_keys ((key, val) # filter (\<lambda>p. fst p \<noteq> key) (butlast (lru_cache c))))
              \<and> int (length ((key, val) # filter (\<lambda>p. fst p \<noteq> key) (butlast (lru_cache c))))
                  = lru_capacity c - 1)"
proof (intro conjI impI)
  from assms(1,2) have ne: "lru_cache c \<noteq> []" by auto
  with assms(2) show "put c key val
      = Inr (c\<lparr>lru_cache := (key, val) # filter (\<lambda>p. fst p \<noteq> key) (butlast (lru_cache c))\<rparr>)"
    by (simp add: put_at_capacity)
  assume other: "key \<noteq> fst (last (lru_cache c))"
  from ne have split: "lru_cache c = butlast (lru_cache c) @ [last (lru_cache c)]" by simp
  then have keys: "od_keys (lru_cache c)
                     = od_keys (butlast (lru_cache c)) @ [fst (last (lru_cache c))]"
    by (metis (no_types) list.simps(8,9) map_append od_keys_def)
  with assms(3) have d: "distinct (od_keys (butlast (lru_cache c)))"
    and lastnot: "fst (last (lru_cache c)) \<notin> set (od_keys (butlast (lru_cache c)))"
    by simp_all
  from keys assms(4) other have mem: "key \<in> set (od_keys (butlast (lru_cache c)))" by auto
  from lastnot other
  show "fst (last (lru_cache c))
          \<notin> set (od_keys ((key, val) # filter (\<lambda>p. fst p \<noteq> key) (butlast (lru_cache c))))"
    by (auto simp: od_keys_def)
  from d mem
  have "Suc (length (filter (\<lambda>p. fst p \<noteq> key) (butlast (lru_cache c)))) = length (butlast (lru_cache c))"
    by (rule od_length_filter_present)
  with ne assms(2)
  show "int (length ((key, val) # filter (\<lambda>p. fst p \<noteq> key) (butlast (lru_cache c))))
          = lru_capacity c - 1"
    by simp
qed

theorem put_overwrite_evicts_witness:
  "distinct (od_keys [(1::int, Some ''a''), (2, Some ''b''), (3, Some ''c'')])
   \<and> put \<lparr>lru_cache = [(1::int, Some ''a''), (2, Some ''b''), (3, Some ''c'')], lru_capacity = 3\<rparr>
         2 (Some ''z'')
       = Inr \<lparr>lru_cache = [(2, Some ''z''), (1, Some ''a'')], lru_capacity = 3\<rparr>"
  using put_overwrite_evicts
          [of "\<lparr>lru_cache = [(1::int, Some ''a''), (2, Some ''b''), (3, Some ''c'')], lru_capacity = 3\<rparr>"
              2 "Some ''z''"]
  by (simp add: od_keys_def)

section \<open>The row stride\<close>

lemma ceiling_div_pos: 
  assumes "0 < (d::int)" shows "- ((- w) div d) = (w + d - 1) div d"
proof (cases "w mod d = 0")
  case True
  then obtain q where w: "w = q * d" by (metis mod_eq_0_iff_dvd dvd_def mult.commute)
  have "(q * d + (d - 1)) div d = q + (d - 1) div d"
    using assms by simp
  also have "(d - 1) div d = 0" using assms by simp
  finally have "(w + d - 1) div d = q" using w by (simp add: algebra_simps)
  moreover have "- w = (- q) * d" using w by simp
  then have "(- w) div d = - q" using assms by (simp only: nonzero_mult_div_cancel_right)
  ultimately show ?thesis by simp
next
  case False
  define q r where "q = w div d" and "r = w mod d"
  have w: "w = q * d + r" by (simp add: q_def r_def)
  have "0 \<le> w mod d" and "w mod d < d" using assms by simp_all
  with False have r: "0 < r" "r < d" by (simp_all add: r_def)
  have "(- w) div d = - (w div d) - 1"
    using False assms by (simp add: zdiv_zminus1_eq_if)
  moreover have "(w + d - 1) div d = q + 1"
  proof -
    have "w + d - 1 = (q + 1) * d + (r - 1)" using w by (simp add: algebra_simps)
    moreover have "((q + 1) * d + (r - 1)) div d = (q + 1) + (r - 1) div d"
      using assms by simp
    moreover have "(r - 1) div d = 0" using r by simp
    ultimately show ?thesis by (simp only: add_0_right)
  qed
  ultimately show ?thesis by (simp add: q_def)
qed

lemma bytes_per_row_ceiling:
  "0 < p \<Longrightarrow> bytes_per_row w p = \<lceil>real_of_int w / real_of_int (p * 8)\<rceil> * p"
proof -
  assume p: "0 < p"
  have "\<lceil>real_of_int w / real_of_int (p * 8)\<rceil> = - ((- w) div (p * 8))"
    by (rule ceiling_divide_eq_div)
  also have "\<dots> = (w + p * 8 - 1) div (p * 8)"
    using p by (intro ceiling_div_pos) simp
  finally show ?thesis by (simp add: bytes_per_row_def Let_def)
qed

text \<open>
  C8. For every width \<open>w \<ge> 1\<close> and padding unit \<open>p\<close> in \<open>{1, 2, 4, 8}\<close>, the row stride
  \<^verbatim>\<open>bytes_per_row(w, p)\<close> is \<open>\<lceil>w / (p * 8)\<rceil> * p\<close>, the ceiling taken of the real quotient; it
  is 1 for width 1 and unit 1, 2 for width 9 and unit 1, and 4 for width 9 and unit 4.
\<close>

theorem bytes_per_row_stride:
  "1 \<le> w \<and> p \<in> {1, 2, 4, 8}
     \<longrightarrow> bytes_per_row w p = \<lceil>real_of_int w / real_of_int (p * 8)\<rceil> * p
       \<and> bytes_per_row 1 1 = 1 \<and> bytes_per_row 9 1 = 2 \<and> bytes_per_row 9 4 = 4"
proof
  assume h: "1 \<le> w \<and> p \<in> {1, 2, 4, 8}"
  then have "0 < p" by auto
  then have "bytes_per_row w p = \<lceil>real_of_int w / real_of_int (p * 8)\<rceil> * p"
    by (rule bytes_per_row_ceiling)
  moreover have "bytes_per_row 1 1 = 1 \<and> bytes_per_row 9 1 = 2 \<and> bytes_per_row 9 4 = 4"
    by (simp add: bytes_per_row_def)
  ultimately show "bytes_per_row w p = \<lceil>real_of_int w / real_of_int (p * 8)\<rceil> * p
       \<and> bytes_per_row 1 1 = 1 \<and> bytes_per_row 9 1 = 2 \<and> bytes_per_row 9 4 = 4"
    by simp
qed

theorem bytes_per_row_stride_witness:
  "(1::int) \<le> 9 \<and> (4::int) \<in> {1, 2, 4, 8}
   \<and> bytes_per_row 9 4 = \<lceil>real_of_int 9 / real_of_int (4 * 8)\<rceil> * 4 \<and> bytes_per_row 9 4 = 4"
  using bytes_per_row_stride [of 9 4] by simp

section \<open>Compressed metrics\<close>

lemma uint_biased:
  assumes "- 128 \<le> x" and "x \<le> 127"
  shows "uint (word_of_int x + 128 :: byte) = x + 128"
proof -
  have "(word_of_int x + 128 :: byte) = word_of_int (x + 128)" by simp
  then have "uint (word_of_int x + 128 :: byte) = take_bit 8 (x + 128)"
    by (simp only: uint_word_of_int_eq) simp
  also have "\<dots> = x + 128"
    using assms by (intro take_bit_int_eq_self) simp_all
  finally show ?thesis .
qed

text \<open>
  C6. For five field values, each in \<open>[-128, 127]\<close>, stored in the file at the position of
  the stream as the five bytes obtained by adding 128 to each (left bearing, right
  bearing, width, ascent, descent), \<^verbatim>\<open>read_metrics_entry_compressed\<close> returns the entry
  with these five values and attributes 0, and has read exactly these five bytes.
\<close>

theorem read_metrics_entry_compressed_roundtrip:
  assumes "- 128 \<le> lb \<and> lb \<le> 127" and "- 128 \<le> rb \<and> rb \<le> 127"
    and "- 128 \<le> cw \<and> cw \<le> 127" and "- 128 \<le> asc \<and> asc \<le> 127"
    and "- 128 \<le> desc \<and> desc \<le> 127"
    and "f_content f = pre @ [word_of_int (lb + 128), word_of_int (rb + 128), word_of_int (cw + 128),
                              word_of_int (asc + 128), word_of_int (desc + 128)] @ post"
    and "f_pos f = length pre"
  shows "read_metrics_entry_compressed f
           = Inr (\<lparr>left_side_bearing = lb, right_side_bearing = rb, character_width = cw,
                   character_ascent = asc, character_descent = desc, character_attributes = 0\<rparr>,
                  f\<lparr>f_pos := length pre + 5, f_log := f_log f @ [Read 5]\<rparr>)"
  using assms
  by (simp add: read_metrics_entry_compressed_def read_values_def read_def calcsize_def
        field_value_def uint_biased)

theorem read_metrics_entry_compressed_roundtrip_witness:
  "read_metrics_entry_compressed \<lparr>f_content = [7, 128, 136, 136, 135, 129, 9], f_pos = 1, f_log = []\<rparr>
     = Inr (\<lparr>left_side_bearing = 0, right_side_bearing = 8, character_width = 8,
             character_ascent = 7, character_descent = 1, character_attributes = 0\<rparr>,
            \<lparr>f_content = [7, 128, 136, 136, 135, 129, 9], f_pos = 6, f_log = [Read 5]\<rparr>)"
  using read_metrics_entry_compressed_roundtrip
          [of 0 8 8 7 1 "\<lparr>f_content = [7, 128, 136, 136, 135, 129, 9], f_pos = 1, f_log = []\<rparr>"
              "[7]" "[9]"]
  by simp

section \<open>The encoding index\<close>

lemma and_255_take_bit: "(x::int) AND 0xFF = take_bit 8 x"
proof -
  have "x AND mask 8 = take_bit 8 x" by (simp add: take_bit_eq_mask)
  then show ?thesis by (simp add: mask_eq_exp_minus_1)
qed

lemma mod_low16: "(cp::int) mod 0x10000 = take_bit 16 cp"
  by (simp add: take_bit_eq_mod)

lemma enc1_low16: "(drop_bit 8 (cp::int)) AND 0xFF = (drop_bit 8 (cp mod 0x10000)) AND 0xFF"
  by (simp only: and_255_take_bit mod_low16 drop_bit_take_bit) simp

lemma enc2_low16: "(cp::int) AND 0xFF = (cp mod 0x10000) AND 0xFF"
  by (simp only: and_255_take_bit mod_low16 take_bit_take_bit)

lemma read_u16_be:
  assumes "take 2 (drop (f_pos f) (f_content f)) = [hi, lo]"
  shows "read_values f BigEndian [Fmt_H]
           = Inr ([uint hi * 256 + uint lo], f\<lparr>f_pos := f_pos f + 2, f_log := f_log f @ [Read 2]\<rparr>)"
proof -
  define bs where "bs = take 2 (drop (f_pos f) (f_content f))"
  have rd: "read f 2 = (bs, f\<lparr>f_pos := f_pos f + length bs, f_log := f_log f @ [Read 2]\<rparr>)"
    by (simp only: read_def Let_def bs_def)
  from assms have bs: "bs = [hi, lo]" by (simp only: bs_def)
  have cs: "calcsize [Fmt_H] = 2" by (simp add: calcsize_def)
  show ?thesis
    by (simp add: read_values_def cs rd bs field_value_def)
qed

lemma index_offset_nonneg:
  assumes "(lo1::int) \<le> e1" and "lo2 \<le> e2" and "e2 \<le> hi2"
  shows "0 \<le> (e1 - lo1) * (hi2 - lo2 + 1) + (e2 - lo2)"
proof -
  have "0 \<le> (e1 - lo1) * (hi2 - lo2 + 1)"
    using assms by (intro mult_nonneg_nonneg) simp_all
  with assms show ?thesis by simp
qed

lemma enc1_u16:
  assumes "0 \<le> cp" and "cp < 0x10000"
  shows "drop_bit 8 cp AND 0xFF = drop_bit 8 (cp::int)"
proof -
  from assms have cp: "0 \<le> cp" "cp \<le> 65535" by simp_all
  have "0 div 256 \<le> cp div 256" using cp(1) by (intro zdiv_mono1) simp_all
  moreover have "cp div 256 \<le> 65535 div 256" using cp(2) by (intro zdiv_mono1) simp_all
  ultimately have "0 \<le> cp div 256" and "cp div 256 \<le> 255" by simp_all
  then have "0 \<le> drop_bit 8 cp" and "drop_bit 8 cp < 256"
    by (simp_all add: drop_bit_eq_div)
  then have "take_bit 8 (drop_bit 8 cp) = drop_bit 8 cp"
    by (intro take_bit_int_eq_self) simp_all
  then show ?thesis by (simp only: and_255_take_bit)
qed

text \<open>The lookup with the mask of the source on \<open>enc1\<close>, for every integer code point.\<close>

lemma get_glyph_index_masked:
  assumes "enc1 = drop_bit 8 cp AND 0xFF" and "enc2 = cp AND 0xFF"
    and "loc = encoded_glyph_indices_location font
                 + ((enc1 - min_byte1 font) * (max_byte2 font - min_byte2 font + 1)
                    + (enc2 - min_byte2 font)) * 2"
  shows "(\<not> (min_byte1 font \<le> enc1 \<and> enc1 \<le> max_byte1 font)
            \<or> \<not> (min_byte2 font \<le> enc2 \<and> enc2 \<le> max_byte2 font)
          \<longrightarrow> get_glyph_index font cp = Inr (- 1, font))
       \<and> (min_byte1 font \<le> enc1 \<and> enc1 \<le> max_byte1 font
            \<and> min_byte2 font \<le> enc2 \<and> enc2 \<le> max_byte2 font
            \<and> 0 \<le> encoded_glyph_indices_location font
            \<and> take 2 (drop (nat loc) (f_content (font_file font))) = [hi, lo]
          \<longrightarrow> get_glyph_index font cp
                = Inr (if uint hi * 256 + uint lo = 0xFFFF then - 1 else uint hi * 256 + uint lo,
                       font\<lparr>font_file := (font_file font)
                              \<lparr>f_pos := nat loc + 2,
                               f_log := f_log (font_file font) @ [Seek loc, Read 2]\<rparr>\<rparr>))"
proof (intro conjI impI)
  assume "\<not> (min_byte1 font \<le> enc1 \<and> enc1 \<le> max_byte1 font)
            \<or> \<not> (min_byte2 font \<le> enc2 \<and> enc2 \<le> max_byte2 font)"
  then show "get_glyph_index font cp = Inr (- 1, font)"
    using assms(1,2) by (auto simp: get_glyph_index_def Let_def)
next
  assume h: "min_byte1 font \<le> enc1 \<and> enc1 \<le> max_byte1 font
            \<and> min_byte2 font \<le> enc2 \<and> enc2 \<le> max_byte2 font
            \<and> 0 \<le> encoded_glyph_indices_location font
            \<and> take 2 (drop (nat loc) (f_content (font_file font))) = [hi, lo]"
  then have "0 \<le> (enc1 - min_byte1 font) * (max_byte2 font - min_byte2 font + 1)
                   + (enc2 - min_byte2 font)"
    by (intro index_offset_nonneg) simp_all
  with h assms(3) have loc: "0 \<le> loc" by simp
  define f1 where "f1 = (font_file font)\<lparr>f_pos := nat loc, f_log := f_log (font_file font) @ [Seek loc]\<rparr>"
  from loc have sk: "seek (font_file font) loc = Inr f1"
    by (simp add: seek_def f1_def)
  from h have "take 2 (drop (f_pos f1) (f_content f1)) = [hi, lo]"
    by (simp add: f1_def)
  then have rd: "read_values f1 BigEndian [Fmt_H]
      = Inr ([uint hi * 256 + uint lo], f1\<lparr>f_pos := f_pos f1 + 2, f_log := f_log f1 @ [Read 2]\<rparr>)"
    by (rule read_u16_be)
  have inrange: "\<not> (\<not> (min_byte1 font \<le> enc1 \<and> enc1 \<le> max_byte1 font)
            \<or> \<not> (min_byte2 font \<le> enc2 \<and> enc2 \<le> max_byte2 font))"
    using h by simp
  show "get_glyph_index font cp
          = Inr (if uint hi * 256 + uint lo = 0xFFFF then - 1 else uint hi * 256 + uint lo,
                 font\<lparr>font_file := (font_file font)
                        \<lparr>f_pos := nat loc + 2,
                         f_log := f_log (font_file font) @ [Seek loc, Read 2]\<rparr>\<rparr>)"
    unfolding get_glyph_index_def Let_def assms(1,2) [symmetric] assms(3) [symmetric]
    using inrange sk rd by (simp add: f1_def)
qed

text \<open>
  C5. For every code point \<open>cp\<close> (16 bits: \<open>0 \<le> cp < 0x10000\<close>), with \<open>enc1 = cp >> 8\<close> and
  \<open>enc2 = cp & 0xFF\<close>: when \<open>enc1\<close> lies outside \<open>[min_byte1, max_byte1]\<close> or \<open>enc2\<close> outside
  \<open>[min_byte2, max_byte2]\<close> the lookup returns \<open>- 1\<close> (no glyph) and leaves the stream as it
  was, without any access. Otherwise, where the file holds two bytes \<open>hi\<close>, \<open>lo\<close> at
  \<open>loc = base + ((enc1 - min_byte1) * (max_byte2 - min_byte2 + 1) + (enc2 - min_byte2)) * 2\<close>
  (the base of the encoding table not negative), the lookup seeks to \<open>loc\<close>, reads these
  two bytes, and returns \<open>- 1\<close> exactly when the big-endian value \<open>hi * 256 + lo\<close> is
  \<open>0xFFFF\<close>, and that value otherwise.
\<close>

theorem get_glyph_index_lookup:
  assumes "0 \<le> cp" and "cp < 0x10000"
    and "enc1 = drop_bit 8 cp" and "enc2 = cp AND 0xFF"
    and "loc = encoded_glyph_indices_location font
                 + ((enc1 - min_byte1 font) * (max_byte2 font - min_byte2 font + 1)
                    + (enc2 - min_byte2 font)) * 2"
  shows "(\<not> (min_byte1 font \<le> enc1 \<and> enc1 \<le> max_byte1 font)
            \<or> \<not> (min_byte2 font \<le> enc2 \<and> enc2 \<le> max_byte2 font)
          \<longrightarrow> get_glyph_index font cp = Inr (- 1, font))
       \<and> (min_byte1 font \<le> enc1 \<and> enc1 \<le> max_byte1 font
            \<and> min_byte2 font \<le> enc2 \<and> enc2 \<le> max_byte2 font
            \<and> 0 \<le> encoded_glyph_indices_location font
            \<and> take 2 (drop (nat loc) (f_content (font_file font))) = [hi, lo]
          \<longrightarrow> get_glyph_index font cp
                = Inr (if uint hi * 256 + uint lo = 0xFFFF then - 1 else uint hi * 256 + uint lo,
                       font\<lparr>font_file := (font_file font)
                              \<lparr>f_pos := nat loc + 2,
                               f_log := f_log (font_file font) @ [Seek loc, Read 2]\<rparr>\<rparr>))"
proof -
  from assms(1,2) have "drop_bit 8 cp AND 0xFF = drop_bit 8 cp" by (rule enc1_u16)
  with assms(3) have "enc1 = drop_bit 8 cp AND 0xFF" by simp
  from get_glyph_index_masked [OF this assms(4,5), of hi lo]
  show ?thesis .
qed

theorem get_glyph_index_lookup_witness:
  "get_glyph_index demo_font 0x42 = Inr (- 1, demo_font)
   \<and> get_glyph_index demo_font 0x41
       = Inr (0, demo_font\<lparr>font_file := (font_file demo_font)
                \<lparr>f_pos := 136, f_log := f_log (font_file demo_font) @ [Seek 134, Read 2]\<rparr>\<rparr>)"
proof -
  have a: "drop_bit 8 (0x42::int) = 0" "(0x42::int) AND 0xFF = 66"
          "drop_bit 8 (0x41::int) = 0" "(0x41::int) AND 0xFF = 65"
    by (simp_all add: and_255_take_bit drop_bit_eq_div take_bit_eq_mod)
  have t: "take 2 (drop (nat 134) (f_content (font_file demo_font))) = [0, 0]"
    by code_simp
  have 1: "get_glyph_index demo_font 0x42 = Inr (- 1, demo_font)"
    using get_glyph_index_lookup [of "0x42" 0 66 136 demo_font 0 0] a
    by (simp add: demo_font_def)
  have 2: "get_glyph_index demo_font 0x41
       = Inr (0, demo_font\<lparr>font_file := (font_file demo_font)
                \<lparr>f_pos := 136, f_log := f_log (font_file demo_font) @ [Seek 134, Read 2]\<rparr>\<rparr>)"
    using get_glyph_index_lookup [of "0x41" 0 65 134 demo_font 0 0] a t
    by (simp add: demo_font_def)
  from 1 2 show ?thesis by simp
qed

text \<open>
  C10. The lookup depends only on the low 16 bits of the code point: its result, value and
  stream, for \<open>cp\<close> is its result for \<open>cp mod 0x10000\<close> (for every integer \<open>cp\<close>, so for every
  \<open>cp \<ge> 0\<close>), since it computes \<open>enc1 = (cp >> 8) & 0xFF\<close> and \<open>enc2 = cp & 0xFF\<close>. A code
  point from \<open>0x10000\<close> on resolves to the glyph of its alias: in the font of \<open>demo_bytes\<close>,
  \<open>0x10041\<close> resolves to glyph 0, the glyph of \<open>0x41\<close>.
\<close>

theorem get_glyph_index_low16:
  "get_glyph_index font cp = get_glyph_index font (cp mod 0x10000)"
  by (simp only: get_glyph_index_def enc1_low16 [of cp] enc2_low16 [of cp])

theorem get_glyph_index_low16_witness:
  "get_glyph_index demo_font 0x10041 = get_glyph_index demo_font 0x41
   \<and> get_glyph_index demo_font 0x41
       = Inr (0, demo_font\<lparr>font_file := (font_file demo_font)
                \<lparr>f_pos := 136, f_log := f_log (font_file demo_font) @ [Seek 134, Read 2]\<rparr>\<rparr>)"
proof -
  have "get_glyph_index demo_font 0x10041 = get_glyph_index demo_font (0x10041 mod 0x10000)"
    by (rule get_glyph_index_low16)
  moreover have "(0x10041::int) mod 0x10000 = 0x41" by simp
  moreover have "get_glyph_index demo_font 0x41
       = Inr (0, demo_font\<lparr>font_file := (font_file demo_font)
                \<lparr>f_pos := 136, f_log := f_log (font_file demo_font) @ [Seek 134, Read 2]\<rparr>\<rparr>)"
    by code_simp
  ultimately show ?thesis by simp
qed

section \<open>\<^verbatim>\<open>get_glyph\<close>\<close>

text \<open>The three lookups change nothing of the font but its stream.\<close>

lemma get_glyph_index_frame:
  "get_glyph_index font cp = Inr (gi, font1) \<Longrightarrow> font1 = font\<lparr>font_file := font_file font1\<rparr>"
  by (auto simp: get_glyph_index_def Let_def split: if_splits sum.splits list.splits)

lemma get_glyph_bitmap_offset_frame:
  "get_glyph_bitmap_offset font gi = Inr (off, font1) \<Longrightarrow> font1 = font\<lparr>font_file := font_file font1\<rparr>"
  by (auto simp: get_glyph_bitmap_offset_def split: sum.splits list.splits)

lemma get_metrics_frame:
  "get_metrics font gi = Inr (m, font1) \<Longrightarrow> font1 = font\<lparr>font_file := font_file font1\<rparr>"
  by (auto simp: get_metrics_def split: if_splits sum.splits)

text \<open>A code point in the cache is answered from the cache: the stream is not touched.\<close>

lemma get_glyph_cached:
  "map_of (lru_cache (cache font)) cp = Some (Some g) \<Longrightarrow>
   get_glyph host font cp
     = Inr (Some g, font\<lparr>cache := (cache font)
              \<lparr>lru_cache := (cp, Some g) # filter (\<lambda>p. fst p \<noteq> cp) (lru_cache (cache font))\<rparr>\<rparr>)"
proof -
  assume m: "map_of (lru_cache (cache font)) cp = Some (Some g)"
  then have "(cp, Some g) \<in> set (lru_cache (cache font))" by (rule map_of_SomeD)
  then have "cp \<in> fst ` set (lru_cache (cache font))" by (rule rev_image_eqI) simp
  then have "fst (contains (cache font) cp)" by (simp add: contains_def od_keys_def)
  with m show ?thesis by (simp add: get_glyph_def get_present)
qed

text \<open>
  C4. For a font with a cache of capacity at least 1 and a code point \<open>cp\<close> not yet cached:
  when \<open>cp\<close> resolves to a glyph index \<open>gi \<ge> 0\<close>, the offset and the metrics entry \<open>m\<close> of
  \<open>gi\<close> are read, the host builds the bitmap and decodes it from the stream, then
  \<^verbatim>\<open>get_glyph(cp)\<close> returns a glyph with width \<open>rb - lb\<close>, height \<open>asc + desc\<close>, x offset
  \<open>lb\<close>, y offset \<open>- desc\<close> and advance \<open>w\<close> of \<open>m\<close>, and a second \<^verbatim>\<open>get_glyph(cp)\<close> returns
  the same glyph (the same bitmap address in the same store) and the font unchanged, the
  record of stream accesses included: there is no access to the stream. The instance of
  the specification (\<open>lb = 0, rb = 8, w = 8, asc = 7, desc = 1\<close> at code point \<open>0x41\<close>, giving
  \<open>width = 8, height = 8, x_offset = 0, y_offset = - 1, advance = 8\<close>) is the witness, on
  the font built from \<open>demo_bytes\<close>.
\<close>

theorem get_glyph_metrics:
  fixes host :: "'b Host" and font :: "'b PcfFont"
  assumes cap: "1 \<le> lru_capacity (cache font)"
    and miss: "cp \<notin> set (od_keys (lru_cache (cache font)))"
    and index: "get_glyph_index font cp = Inr (gi, font1)" and resolvable: "0 \<le> gi"
    and offset: "get_glyph_bitmap_offset font1 gi = Inr (off, font2)"
    and metrics: "get_metrics font2 gi = Inr (m, font3)"
    and bitmap: "new_bitmap host (right_side_bearing m - left_side_bearing m)
                   (character_ascent m + character_descent m) 2 = Inr b"
    and seekd: "seek (font_file font3) (bitmap_data_location font + off) = Inr f4"
    and decode: "readinto host b f4 (glyph_padding font) = Inr (b', f5)"
    and g: "g = \<lparr>bitmap = length (heap font), tile_index = 0,
                 width = right_side_bearing m - left_side_bearing m,
                 height = character_ascent m + character_descent m,
                 dx = left_side_bearing m, dy = - character_descent m,
                 shift_x = character_width m, shift_y = 0\<rparr>"
  shows "\<exists>font'. get_glyph host font cp = Inr (Some g, font')
           \<and> font_file font' = f5 \<and> heap font' = heap font @ [b']
           \<and> get_glyph host font' cp = Inr (Some g, font')"
proof -
  from index have font1: "font1 = font\<lparr>font_file := font_file font1\<rparr>"
    by (rule get_glyph_index_frame)
  from offset have "font2 = font1\<lparr>font_file := font_file font2\<rparr>"
    by (rule get_glyph_bitmap_offset_frame)
  with font1 have font2: "font2 = font\<lparr>font_file := font_file font2\<rparr>"
    by (metis PcfFont.update_convs(1) PcfFont.surjective)
  from metrics have "font3 = font2\<lparr>font_file := font_file font3\<rparr>"
    by (rule get_metrics_frame)
  with font2 have "font3 = font\<lparr>font_file := font_file font3\<rparr>"
    by (metis PcfFont.update_convs(1) PcfFont.surjective)
  then obtain F3 where font3: "font3 = font\<lparr>font_file := F3\<rparr>" by blast
  from put_succeeds [OF cap] obtain D where
    put: "put (cache font) cp (Some g)
            = Inr ((cache font)\<lparr>lru_cache := (cp, Some g) # filter (\<lambda>p. fst p \<noteq> cp) D\<rparr>)"
    by blast
  define c1 where "c1 = (cache font)\<lparr>lru_cache := (cp, Some g) # filter (\<lambda>p. fst p \<noteq> cp) D\<rparr>"
  define font' where "font' = font\<lparr>font_file := f5, cache := c1, heap := heap font @ [b']\<rparr>"
  have sel3: "cache font3 = cache font" "heap font3 = heap font"
             "bitmap_data_location font3 = bitmap_data_location font"
             "glyph_padding font3 = glyph_padding font" "font_file font3 = F3"
    by (simp_all add: font3)
  have nc: "\<not> fst (contains (cache font) cp)"
    using miss by (simp add: contains_def)
  have idx: "glyphs_indices_loop font [cp] [] = Inr ([(cp, gi)], font1)"
    using index resolvable by simp
  have offs: "bitmaps_offsets_loop font1 [gi] = Inr ([off], font2)"
    using offset by simp
  have mets: "char_metrics_loop font2 [gi] = Inr ([m], font3)"
    using metrics by simp
  have create: "create_bitmaps_loop host font3 [(m, cp)]
                  = Inr ([length (heap font)], font3\<lparr>cache := c1, heap := heap font @ [b]\<rparr>)"
    using bitmap put by (simp add: Let_def sel3 g [symmetric] c1_def)
  have dec: "readinto_loop host (font3\<lparr>cache := c1, heap := heap font @ [b]\<rparr>) [(off, length (heap font))]
               = Inr font'"
    using seekd decode by (simp add: font3 font'_def)
  have load: "load_glyphs host font [cp] = Inr font'"
    using nc idx offs mets create dec by (simp add: load_glyphs_def)
  have getc: "get c1 cp = Inr (Some g, c1)"
    unfolding c1_def by (rule get_front)
  have cf: "cache font' = c1" by (simp add: font'_def)
  have upd: "font'\<lparr>cache := c1\<rparr> = font'" by (simp add: font'_def)
  have first: "get_glyph host font cp = Inr (Some g, font')"
    using nc load getc cf upd by (simp add: get_glyph_def)
  have hit: "fst (contains (cache font') cp)"
    unfolding cf c1_def by (rule contains_front)
  have second: "get_glyph host font' cp = Inr (Some g, font')"
    using hit getc cf upd by (simp add: get_glyph_def)
  from first second show ?thesis
    by (intro exI [of _ font']) (simp add: font'_def)
qed

theorem get_glyph_metrics_witness:
  "PcfFont_init demo_bytes 128 = Inr demo_font
   \<and> (\<exists>font'. get_glyph demo_host demo_font 0x41
                 = Inr (Some \<lparr>bitmap = 0, tile_index = 0, width = 8, height = 8,
                              dx = 0, dy = - 1, shift_x = 8, shift_y = 0\<rparr>, font')
              \<and> get_glyph demo_host font' 0x41
                 = Inr (Some \<lparr>bitmap = 0, tile_index = 0, width = 8, height = 8,
                              dx = 0, dy = - 1, shift_x = 8, shift_y = 0\<rparr>, font'))"
proof -
  define font1 where "font1 = snd (projr (get_glyph_index demo_font 0x41))"
  define font2 where "font2 = snd (projr (get_glyph_bitmap_offset font1 0))"
  define m where "m = \<lparr>left_side_bearing = 0, right_side_bearing = 8, character_width = 8,
                       character_ascent = 7, character_descent = 1, character_attributes = 0\<rparr>"
  define font3 where "font3 = snd (projr (get_metrics font2 0))"
  define f4 where "f4 = projr (seek (font_file font3) (bitmap_data_location demo_font + 0))"
  define b' where "b' = fst (projr (readinto demo_host (8, 8, []) f4 (glyph_padding demo_font)))"
  define f5 where "f5 = snd (projr (readinto demo_host (8, 8, []) f4 (glyph_padding demo_font)))"
  have init: "PcfFont_init demo_bytes 128 = Inr demo_font" by code_simp
  have 1: "1 \<le> lru_capacity (cache demo_font)" by code_simp
  have 2: "0x41 \<notin> set (od_keys (lru_cache (cache demo_font)))" by code_simp
  have 3: "get_glyph_index demo_font 0x41 = Inr (0, font1)"
    unfolding font1_def by code_simp
  have 4: "get_glyph_bitmap_offset font1 0 = Inr (0, font2)"
    unfolding font2_def font1_def by code_simp
  have 5: "get_metrics font2 0 = Inr (m, font3)"
    unfolding font3_def font2_def font1_def m_def by code_simp
  have 6: "new_bitmap demo_host (right_side_bearing m - left_side_bearing m)
             (character_ascent m + character_descent m) 2 = Inr (8, 8, [])"
    unfolding m_def by code_simp
  have 7: "seek (font_file font3) (bitmap_data_location demo_font + 0) = Inr f4"
    unfolding f4_def font3_def font2_def font1_def by code_simp
  have 8: "readinto demo_host (8, 8, []) f4 (glyph_padding demo_font) = Inr (b', f5)"
    unfolding b'_def f5_def f4_def font3_def font2_def font1_def by code_simp
  have g: "\<lparr>bitmap = 0, tile_index = 0, width = 8, height = 8,
             dx = 0, dy = - 1, shift_x = 8, shift_y = 0\<rparr>
         = \<lparr>bitmap = length (heap demo_font), tile_index = 0,
             width = right_side_bearing m - left_side_bearing m,
             height = character_ascent m + character_descent m,
             dx = left_side_bearing m, dy = - character_descent m,
             shift_x = character_width m, shift_y = 0\<rparr>"
    unfolding m_def by code_simp
  from get_glyph_metrics [OF 1 2 3 _ 4 5 6 7 8 g] init
  show ?thesis by auto
qed

section \<open>The table of contents\<close>

text \<open>
  With fewer than four of the five kinds of table the check of line 116 raises
  \<^verbatim>\<open>ValueError\<close>. With four or more, formats accepted and no bitmaps table, line 125 looks
  the bitmaps table up and raises \<^verbatim>\<open>KeyError\<close>.
\<close>

lemma check_tables_too_few:
  "length tables < 4 \<Longrightarrow> check_tables tables = Inl ValueError"
  by (simp add: check_tables_def)

lemma check_tables_missing_bitmaps:
  assumes "4 \<le> length tables"
    and "\<not> list_ex (\<lambda>(_, entry). toc_format entry AND (PCF_BYTE_MASK OR PCF_BIT_MASK)
                                        \<noteq> (PCF_BYTE_MASK OR PCF_BIT_MASK)) tables"
    and "map_of tables PCF_TABLETYPE_BITMAPS = None"
  shows "check_tables tables = Inl KeyError"
  using assms by (simp add: check_tables_def dict_getitem_def)

text \<open>
  C1. A font file whose table of contents holds both kinds of accelerators, the metrics
  and the encodings, but no bitmaps table, lacks a required table, and opening it
  is to raise \<^verbatim>\<open>ValueError\<close>. On \<open>bad_bytes\<close>, such a file, \<^verbatim>\<open>__init__\<close> raises
  \<^verbatim>\<open>KeyError\<close>: the test \<^verbatim>\<open>len(tables) < 4\<close> counts the tables and lets four of them pass,
  whichever they are.
\<close>

theorem init_missing_bitmaps_table:
  "(PcfFont_init bad_bytes 128 :: error + unit PcfFont) = Inl KeyError"
  by code_simp

end
